theory Spec2Isabelle
  imports Main "HOL-Library.Word" "HOL-Library.Log_Nat"
begin

section \<open>Solidity value types and checked arithmetic\<close>

text \<open>
  The contracts are compiled with Solidity 0.8, where \<open>+\<close> and \<open>*\<close> on \<open>uint256\<close>
  revert with a panic instead of wrapping around. The checked operations return \<open>None\<close>
  for the panic.
\<close>

type_synonym address = "160 word"
type_synonym bytes32 = "256 word"
type_synonym uint256 = "256 word"

definition checked_add :: "uint256 \<Rightarrow> uint256 \<Rightarrow> uint256 option" where
  "checked_add a b = (if unat a + unat b < 2 ^ 256 then Some (a + b) else None)"

definition checked_mul :: "uint256 \<Rightarrow> uint256 \<Rightarrow> uint256 option" where
  "checked_mul a b = (if unat a * unat b < 2 ^ 256 then Some (a * b) else None)"

datatype error =
    Revert string
  | Panic
  | OwnableUnauthorizedAccount address
  | TokenCallFailed

section \<open>The token ledger behind \<open>IERC20\<close>\<close>

text \<open>
  Modelled from the spec: the contracts \<open>GameToken\<close> and \<open>MockUSDT\<close> behind the
  \<open>IERC20\<close> and \<open>GameToken\<close> handles are not among the sources. The ledger follows
  sections 3, 4.1 and 6 of the specification: a mapping from accounts to unsigned amounts,
  \<open>transfer\<close> failing when the sender's balance is insufficient, \<open>transferFrom\<close> failing
  when the allowance or the balance is insufficient, debit and credit happening together,
  and \<open>mint\<close> reserved to one authority. The total supply is a \<open>uint256\<close>, so a mint
  that would take it beyond \<open>2 ^ 256 - 1\<close> fails. A failing call is \<open>None\<close>, whether
  the token reverts or returns \<open>false\<close>: the callers below require \<open>true\<close>. The ledger
  makes no call back into its caller.
\<close>

record ledger =
  balances :: "address \<Rightarrow> nat"
  allowances :: "address \<Rightarrow> address \<Rightarrow> nat"
  totalSupply :: nat
  minter :: address

text \<open>
  Modelled from the spec: the atomic debit and credit of section 3, failing when the
  sender's balance is insufficient (section 4.1). The debit is applied first, so a transfer
  to oneself leaves the balance as it was.
\<close>

definition move :: "ledger \<Rightarrow> address \<Rightarrow> address \<Rightarrow> nat \<Rightarrow> ledger option" where
  "move l from to v =
     (if balances l from < v then None
      else let b1 = (balances l)(from := balances l from - v)
           in Some (l\<lparr>balances := b1(to := b1 to + v)\<rparr>))"

text \<open>Modelled from the spec: \<open>transfer(to, amount)\<close> of section 6, by \<open>sender\<close>.\<close>

definition transfer :: "ledger \<Rightarrow> address \<Rightarrow> address \<Rightarrow> uint256 \<Rightarrow> ledger option" where
  "transfer l sender to amount = move l sender to (unat amount)"

text \<open>
  Modelled from the spec: the pre-authorisation of the allowance-transfer pattern (glossary),
  \<open>approve(spender, amount)\<close> by \<open>sender\<close>.
\<close>

definition approve :: "ledger \<Rightarrow> address \<Rightarrow> address \<Rightarrow> uint256 \<Rightarrow> ledger option" where
  "approve l sender spender amount =
     Some (l\<lparr>allowances := (allowances l)(sender := (allowances l sender)(spender := unat amount))\<rparr>)"

text \<open>
  Modelled from the spec: \<open>transferFrom(from, to, amount)\<close> of section 6 called by
  \<open>sender\<close>, which spends \<open>sender\<close>'s allowance from \<open>from\<close>; it fails when the
  allowance or the balance is insufficient (sections 4.2 and 4.3).
\<close>

definition transferFrom ::
  "ledger \<Rightarrow> address \<Rightarrow> address \<Rightarrow> address \<Rightarrow> uint256 \<Rightarrow> ledger option" where
  "transferFrom l sender from to amount =
     (if allowances l from sender < unat amount then None
      else move (l\<lparr>allowances :=
                   (allowances l)(from := (allowances l from)(sender := allowances l from sender - unat amount))\<rparr>)
             from to (unat amount))"

text \<open>
  Modelled from the spec: \<open>mint(to, amount)\<close> of sections 4.1 and 6, which fails for every
  caller but the one minting authority.
\<close>

definition mint :: "ledger \<Rightarrow> address \<Rightarrow> address \<Rightarrow> uint256 \<Rightarrow> ledger option" where
  "mint l sender to amount =
     (if sender \<noteq> minter l then None
      else if \<not> (totalSupply l + unat amount < 2 ^ 256) then None
      else Some (l\<lparr>balances := (balances l)(to := balances l to + unat amount),
                    totalSupply := totalSupply l + unat amount\<rparr>))"

section \<open>PlayGame.sol\<close>

datatype MatchStatus = PENDING | STAKED | SETTLED | REFUNDED

record Match =
  p1 :: address
  p2 :: address
  stake :: uint256
  startTime :: uint256
  status :: MatchStatus
  p1Staked :: bool
  p2Staked :: bool

datatype event =
    MatchCreated bytes32 address address uint256
  | Staked bytes32 address
  | Settled bytes32 address uint256
  | Refunded bytes32 address address uint256
  | Purchase address uint256 uint256

text \<open>
  The state of the contract, together with what it can observe and change outside itself:
  its own address \<open>self\<close> (\<open>address(this)\<close>), the state of the token at the immutable
  address \<open>gameToken\<close>, and the log of the events it has emitted. A Solidity mapping is
  total: an absent key reads as the all-zero \<open>Match\<close>.
\<close>

record PlayGame =
  self :: address
  owner :: address
  gameToken :: ledger
  backendOperator :: address
  matches :: "bytes32 \<Rightarrow> Match"
  events :: "event list"

definition TIMEOUT_DURATION :: uint256 where
  "TIMEOUT_DURATION = 86400"

definition zero_Match :: Match where
  "zero_Match = \<lparr>p1 = 0, p2 = 0, stake = 0, startTime = 0, status = PENDING,
                  p1Staked = False, p2Staked = False\<rparr>"

text \<open>The constructor: \<open>Ownable(msg.sender)\<close>, \<open>backendOperator = msg.sender\<close>.\<close>

definition constructor :: "address \<Rightarrow> address \<Rightarrow> ledger \<Rightarrow> PlayGame" where
  "constructor this sender token =
     \<lparr>self = this, owner = sender, gameToken = token, backendOperator = sender,
      matches = (\<lambda>_. zero_Match), events = []\<rparr>"

definition setBackendOperator :: "PlayGame \<Rightarrow> address \<Rightarrow> address \<Rightarrow> error + PlayGame" where
  "setBackendOperator s sender operator =
     (if sender \<noteq> owner s then Inl (OwnableUnauthorizedAccount sender)
      else Inr (s\<lparr>backendOperator := operator\<rparr>))"

definition createMatch ::
  "PlayGame \<Rightarrow> address \<Rightarrow> bytes32 \<Rightarrow> address \<Rightarrow> address \<Rightarrow> uint256 \<Rightarrow> error + PlayGame" where
  "createMatch s sender matchId p1' p2' stake' =
     (if sender \<noteq> owner s then Inl (OwnableUnauthorizedAccount sender)
      else if \<not> (p1' \<noteq> 0 \<and> p2' \<noteq> 0) then Inl (Revert ''Invalid addresses'')
      else if \<not> (p1' \<noteq> p2') then Inl (Revert ''Players must be different'')
      else if \<not> (stake' > 0) then Inl (Revert ''Stake must be greater than 0'')
      else if \<not> (p1 (matches s matchId) = 0) then Inl (Revert ''Match already exists'')
      else Inr (s\<lparr>matches := (matches s)(matchId :=
                     \<lparr>p1 = p1', p2 = p2', stake = stake', startTime = 0, status = PENDING,
                      p1Staked = False, p2Staked = False\<rparr>),
                   events := events s @ [MatchCreated matchId p1' p2' stake']\<rparr>))"

text \<open>
  \<open>stake\<close> (named \<open>stake_call\<close>, since \<open>stake\<close> is the field). The flag is written before
  the token is pulled, but a failing pull reverts the whole call, so the error carries no
  state. \<open>now\<close> is \<open>block.timestamp\<close>. The guard \<open>nonReentrant\<close> of \<open>stake\<close>,
  \<open>commitResult\<close> and \<open>refund\<close> rejects a call that arrives while another one is running;
  the ledger never calls back, so no call is rejected by it.
\<close>

definition stake_call :: "PlayGame \<Rightarrow> address \<Rightarrow> uint256 \<Rightarrow> bytes32 \<Rightarrow> error + PlayGame" where
  "stake_call s sender now matchId =
     (let matchData = matches s matchId in
      if \<not> (p1 matchData \<noteq> 0) then Inl (Revert ''Match does not exist'')
      else if \<not> (status matchData = PENDING) then Inl (Revert ''Match not in pending status'')
      else if \<not> (sender = p1 matchData \<or> sender = p2 matchData) then Inl (Revert ''Not a player'')
      else if sender = p1 matchData \<and> p1Staked matchData then Inl (Revert ''Already staked'')
      else if sender \<noteq> p1 matchData \<and> p2Staked matchData then Inl (Revert ''Already staked'')
      else
        let matchData1 = (if sender = p1 matchData then matchData\<lparr>p1Staked := True\<rparr>
                          else matchData\<lparr>p2Staked := True\<rparr>)
        in case transferFrom (gameToken s) (self s) sender (self s) (stake matchData1) of
             None \<Rightarrow> Inl TokenCallFailed
           | Some token' \<Rightarrow>
               let matchData2 =
                     (if p1Staked matchData1 \<and> p2Staked matchData1
                      then matchData1\<lparr>status := STAKED, startTime := now\<rparr>
                      else matchData1)
               in Inr (s\<lparr>gameToken := token',
                         matches := (matches s)(matchId := matchData2),
                         events := events s @ [Staked matchId sender]\<rparr>))"

definition commitResult :: "PlayGame \<Rightarrow> address \<Rightarrow> bytes32 \<Rightarrow> address \<Rightarrow> error + PlayGame" where
  "commitResult s sender matchId winner =
     (if \<not> (sender = backendOperator s) then Inl (Revert ''Only backend can commit result'')
      else
        let matchData = matches s matchId in
        if \<not> (p1 matchData \<noteq> 0) then Inl (Revert ''Match does not exist'')
        else if \<not> (status matchData = STAKED) then Inl (Revert ''Match not staked'')
        else if \<not> (winner = p1 matchData \<or> winner = p2 matchData) then Inl (Revert ''Invalid winner'')
        else case checked_mul (stake matchData) 2 of
               None \<Rightarrow> Inl Panic
             | Some payout \<Rightarrow>
                 (case transfer (gameToken s) (self s) winner payout of
                    None \<Rightarrow> Inl TokenCallFailed
                  | Some token' \<Rightarrow>
                      Inr (s\<lparr>gameToken := token',
                             matches := (matches s)(matchId := matchData\<lparr>status := SETTLED\<rparr>),
                             events := events s @ [Settled matchId winner payout]\<rparr>)))"

definition refund :: "PlayGame \<Rightarrow> address \<Rightarrow> uint256 \<Rightarrow> bytes32 \<Rightarrow> error + PlayGame" where
  "refund s sender now matchId =
     (let matchData = matches s matchId in
      if \<not> (p1 matchData \<noteq> 0) then Inl (Revert ''Match does not exist'')
      else if \<not> (status matchData = STAKED) then Inl (Revert ''Match not staked'')
      else case checked_add (startTime matchData) TIMEOUT_DURATION of
             None \<Rightarrow> Inl Panic
           | Some deadline \<Rightarrow>
               if \<not> (now \<ge> deadline) then Inl (Revert ''Timeout not reached'')
               else
                 (case (if p1Staked matchData
                        then transfer (gameToken s) (self s) (p1 matchData) (stake matchData)
                        else Some (gameToken s)) of
                    None \<Rightarrow> Inl TokenCallFailed
                  | Some token1 \<Rightarrow>
                      (case (if p2Staked matchData
                             then transfer token1 (self s) (p2 matchData) (stake matchData)
                             else Some token1) of
                         None \<Rightarrow> Inl TokenCallFailed
                       | Some token2 \<Rightarrow>
                           Inr (s\<lparr>gameToken := token2,
                                  matches := (matches s)(matchId := matchData\<lparr>status := REFUNDED\<rparr>),
                                  events := events s @
                                    [Refunded matchId (p1 matchData) (p2 matchData) (stake matchData)]\<rparr>))))"

section \<open>Transactions\<close>

text \<open>
  An external call either completes or reverts, and a revert restores the state the call
  started from: \<open>apply_call\<close> is what a transaction does to the state.
\<close>

datatype call =
    CreateMatch bytes32 address address uint256
  | Stake bytes32
  | CommitResult bytes32 address
  | Refund bytes32
  | SetBackendOperator address

fun exec :: "PlayGame \<Rightarrow> address \<Rightarrow> uint256 \<Rightarrow> call \<Rightarrow> error + PlayGame" where
  "exec s sender now (CreateMatch matchId p1' p2' stake') = createMatch s sender matchId p1' p2' stake'"
| "exec s sender now (Stake matchId) = stake_call s sender now matchId"
| "exec s sender now (CommitResult matchId winner) = commitResult s sender matchId winner"
| "exec s sender now (Refund matchId) = refund s sender now matchId"
| "exec s sender now (SetBackendOperator operator) = setBackendOperator s sender operator"

definition apply_call :: "PlayGame \<Rightarrow> address \<Rightarrow> uint256 \<Rightarrow> call \<Rightarrow> PlayGame" where
  "apply_call s sender now c = (case exec s sender now c of Inl _ \<Rightarrow> s | Inr s' \<Rightarrow> s')"

text \<open>
  The calls other accounts can make on the token. \<open>SetTokenStore\<close> is the token's
  \<open>setTokenStore\<close> of the deployment script, which names the minting authority; it is
  open to every caller here, which allows more than the token does.
\<close>

datatype token_call =
    Transfer address uint256
  | Approve address uint256
  | TransferFrom address address uint256
  | Mint address uint256
  | SetTokenStore address

fun token_exec :: "ledger \<Rightarrow> address \<Rightarrow> token_call \<Rightarrow> ledger option" where
  "token_exec l sender (Transfer to amount) = transfer l sender to amount"
| "token_exec l sender (Approve spender amount) = approve l sender spender amount"
| "token_exec l sender (TransferFrom from to amount) = transferFrom l sender from to amount"
| "token_exec l sender (Mint to amount) = mint l sender to amount"
| "token_exec l sender (SetTokenStore store) = Some (l\<lparr>minter := store\<rparr>)"

text \<open>
  What can happen to a deployed escrow. A call of one of its functions comes from another
  account (the contract has no call to itself) in a block whose timestamp is positive
  (Unix time). Other accounts use the token on their own: the escrow's only calls of the
  token are those inside \<open>stake\<close>, \<open>commitResult\<close> and \<open>refund\<close>. The owner can change
  through the functions inherited from \<open>Ownable\<close>.
\<close>

inductive step :: "PlayGame \<Rightarrow> PlayGame \<Rightarrow> bool" where
  call: "sender \<noteq> self s \<Longrightarrow> now \<noteq> 0 \<Longrightarrow> exec s sender now c = Inr s' \<Longrightarrow> step s s'"
| token: "sender \<noteq> self s \<Longrightarrow> token_exec (gameToken s) sender tc = Some l' \<Longrightarrow>
          step s (s\<lparr>gameToken := l'\<rparr>)"
| ownership: "step s (s\<lparr>owner := newOwner\<rparr>)"

text \<open>
  A ledger is consistent when the balances add up to the total supply and the supply
  fits a \<open>uint256\<close>. The escrow is deployed on a consistent ledger on which its address
  has approved nobody.
\<close>

definition ledger_ok :: "ledger \<Rightarrow> bool" where
  "ledger_ok l \<longleftrightarrow> (\<Sum>a\<in>UNIV. balances l a) = totalSupply l \<and> totalSupply l < 2 ^ 256"

inductive reachable :: "PlayGame \<Rightarrow> bool" where
  init: "ledger_ok token \<Longrightarrow> (\<forall>x. allowances token this x = 0) \<Longrightarrow>
         reachable (constructor this sender token)"
| step: "reachable s \<Longrightarrow> step s s' \<Longrightarrow> reachable s'"

text \<open>The tokens a match holds in escrow: the stakes paid in and not yet paid out.\<close>

definition locked :: "Match \<Rightarrow> nat" where
  "locked m =
     (if status m = PENDING \<or> status m = STAKED
      then (if p1Staked m then unat (stake m) else 0) + (if p2Staked m then unat (stake m) else 0)
      else 0)"

definition escrowed :: "(bytes32 \<Rightarrow> Match) \<Rightarrow> nat" where
  "escrowed ms = (\<Sum>i\<in>UNIV. locked (ms i))"

definition match_ok :: "address \<Rightarrow> Match \<Rightarrow> bool" where
  "match_ok this m \<longleftrightarrow>
     (p1 m = 0 \<longrightarrow> m = zero_Match) \<and>
     (p1 m \<noteq> 0 \<longrightarrow> p2 m \<noteq> 0 \<and> p1 m \<noteq> p2 m \<and> stake m \<noteq> 0) \<and>
     (status m = PENDING \<longrightarrow> startTime m = 0 \<and> \<not> (p1Staked m \<and> p2Staked m)) \<and>
     (status m \<noteq> PENDING \<longrightarrow> p1Staked m \<and> p2Staked m \<and> startTime m \<noteq> 0) \<and>
     (p1Staked m \<longrightarrow> p1 m \<noteq> this) \<and>
     (p2Staked m \<longrightarrow> p2 m \<noteq> this)"

definition escrow_inv :: "PlayGame \<Rightarrow> bool" where
  "escrow_inv s \<longleftrightarrow>
     ledger_ok (gameToken s) \<and>
     (\<forall>x. allowances (gameToken s) (self s) x = 0) \<and>
     escrowed (matches s) \<le> balances (gameToken s) (self s) \<and>
     (\<forall>i. match_ok (self s) (matches s i))"

section \<open>A concrete scenario\<close>

definition demo_token :: ledger where
  "demo_token = \<lparr>balances = (\<lambda>_. 0)(2 := 20000000000000000000, 3 := 20000000000000000000),
                  allowances = (\<lambda>_ _. 0)(2 := (\<lambda>_. 0)(100 := 5000000000000000000),
                                             3 := (\<lambda>_. 0)(100 := 5000000000000000000)),
                  totalSupply = 40000000000000000000, minter = 9\<rparr>"

definition demo0 :: PlayGame where
  "demo0 = constructor 100 1 demo_token"

definition demo1 :: PlayGame where
  "demo1 = apply_call demo0 1 1000 (CreateMatch 7 2 3 5000000000000000000)"

definition demo2 :: PlayGame where
  "demo2 = apply_call demo1 2 1000 (Stake 7)"

definition demo3 :: PlayGame where
  "demo3 = apply_call demo2 3 2000 (Stake 7)"

section \<open>Predicates used in the statements\<close>

text \<open>What a successful \<open>commitResult\<close> must have done to the state \<open>s\<close>.\<close>

definition settled_state :: "PlayGame \<Rightarrow> bytes32 \<Rightarrow> address \<Rightarrow> PlayGame \<Rightarrow> bool" where
  "settled_state s i winner s' \<longleftrightarrow>
     status (matches s' i) = SETTLED \<and>
     balances (gameToken s') winner = balances (gameToken s) winner + 2 * unat (stake (matches s i)) \<and>
     balances (gameToken s') (self s) + 2 * unat (stake (matches s i)) = balances (gameToken s) (self s) \<and>
     (\<forall>a. a \<noteq> winner \<and> a \<noteq> self s \<longrightarrow> balances (gameToken s') a = balances (gameToken s) a) \<and>
     events s' = events s @ [Settled i winner (stake (matches s i) * 2)] \<and>
     unat (stake (matches s i) * 2) = 2 * unat (stake (matches s i))"

text \<open>
  The status diagram \<open>PENDING \<rightarrow> STAKED \<rightarrow> {SETTLED, REFUNDED}\<close>: \<open>status_step\<close> is one
  transaction (the status stays, or follows one arrow), \<open>status_path\<close> any number of them.
\<close>

definition status_step :: "MatchStatus \<Rightarrow> MatchStatus \<Rightarrow> bool" where
  "status_step a b \<longleftrightarrow>
     a = b \<or> (a = PENDING \<and> b = STAKED) \<or> (a = STAKED \<and> (b = SETTLED \<or> b = REFUNDED))"

definition status_path :: "MatchStatus \<Rightarrow> MatchStatus \<Rightarrow> bool" where
  "status_path a b \<longleftrightarrow>
     a = b \<or> a = PENDING \<or> (a = STAKED \<and> (b = SETTLED \<or> b = REFUNDED))"

section \<open>TokenStore.sol\<close>

text \<open>
  The store with the states of the two tokens it calls, \<open>usdt\<close> (pulled from the buyer)
  and \<open>gameToken\<close> (minted to the buyer), taken as two different contracts. The fields
  that PlayGame has too carry the prefix \<open>ts_\<close>. The literal \<open>1e6\<close> is 1000000, and
  \<open>/\<close> on \<open>uint256\<close> truncates.
\<close>

record TokenStore =
  ts_self :: address
  ts_owner :: address
  usdt :: ledger
  ts_gameToken :: ledger
  gtPerUsdt :: uint256
  ts_events :: "event list"

definition buy :: "TokenStore \<Rightarrow> address \<Rightarrow> uint256 \<Rightarrow> error + TokenStore" where
  "buy t sender usdtAmount =
     (if \<not> (usdtAmount > 0) then Inl (Revert ''Amount must be greater than 0'')
      else case checked_mul usdtAmount (gtPerUsdt t) of
             None \<Rightarrow> Inl Panic
           | Some product \<Rightarrow>
               (let gtOut = product div 1000000 in
                if \<not> (gtOut > 0) then Inl (Revert ''Invalid conversion'')
                else
                  (case transferFrom (usdt t) (ts_self t) sender (ts_self t) usdtAmount of
                     None \<Rightarrow> Inl TokenCallFailed
                   | Some usdt' \<Rightarrow>
                       (case mint (ts_gameToken t) (ts_self t) sender gtOut of
                          None \<Rightarrow> Inl TokenCallFailed
                        | Some gameToken' \<Rightarrow>
                            Inr (t\<lparr>usdt := usdt', ts_gameToken := gameToken',
                                   ts_events := ts_events t @ [Purchase sender usdtAmount gtOut]\<rparr>)))))"

definition apply_buy :: "TokenStore \<Rightarrow> address \<Rightarrow> uint256 \<Rightarrow> TokenStore" where
  "apply_buy t sender usdtAmount = (case buy t sender usdtAmount of Inl _ \<Rightarrow> t | Inr t' \<Rightarrow> t')"

text \<open>
  What a successful \<open>buy\<close> must have done: the pull of \<open>usdtAmount\<close> from the buyer
  succeeded on the state before the call, and the truncated quotient was minted.
\<close>

definition bought :: "TokenStore \<Rightarrow> address \<Rightarrow> uint256 \<Rightarrow> TokenStore \<Rightarrow> bool" where
  "bought t sender usdtAmount t' \<longleftrightarrow>
     (\<exists>gtOut.
        usdtAmount \<noteq> 0 \<and> gtOut \<noteq> 0 \<and>
        unat gtOut = unat usdtAmount * unat (gtPerUsdt t) div 10 ^ 6 \<and>
        transferFrom (usdt t) (ts_self t) sender (ts_self t) usdtAmount = Some (usdt t') \<and>
        mint (ts_gameToken t) (ts_self t) sender gtOut = Some (ts_gameToken t') \<and>
        balances (ts_gameToken t') sender =
          balances (ts_gameToken t) sender + unat usdtAmount * unat (gtPerUsdt t) div 10 ^ 6 \<and>
        ts_events t' = ts_events t @ [Purchase sender usdtAmount gtOut])"

definition demo_store :: TokenStore where
  "demo_store =
     \<lparr>ts_self = 50, ts_owner = 1,
      usdt = \<lparr>balances = (\<lambda>_. 0)(2 := 100000000),
              allowances = (\<lambda>_ _. 0)(2 := (\<lambda>_. 0)(50 := 10000000)),
              totalSupply = 100000000, minter = 1\<rparr>,
      ts_gameToken = \<lparr>balances = (\<lambda>_. 0), allowances = (\<lambda>_ _. 0), totalSupply = 0, minter = 50\<rparr>,
      gtPerUsdt = 1000000000000000000,
      ts_events = []\<rparr>"

section \<open>JavaScript numbers\<close>

text \<open>
  \<open>totalGTWon\<close> is a JavaScript number: an IEEE 754 binary64 value. Every number the
  aggregator computes is non-negative, so a number is a non-negative rational that is
  representable, or \<open>Infinity\<close>. \<open>rnd\<close> is rounding to nearest, ties to even, with 53
  bits of precision, the subnormal range below \<open>2^-1022\<close> and overflow from \<open>2^1024\<close> on.
\<close>

datatype number = Fin rat | Infinity

definition pow2 :: "int \<Rightarrow> rat" where
  "pow2 k = 2 powi k"

text \<open>\<open>ilog2 x\<close> is the integer \<open>e\<close> with \<open>2^e \<le> x < 2^(e+1)\<close>, for \<open>x > 0\<close>.\<close>

definition ilog2 :: "rat \<Rightarrow> int" where
  "ilog2 x = (if 1 \<le> x then bitlen \<lfloor>x\<rfloor> - 1 else - bitlen (\<lceil>1 / x\<rceil> - 1))"

definition round_half_even :: "rat \<Rightarrow> int" where
  "round_half_even r =
     (let f = \<lfloor>r\<rfloor>; d = r - of_int f
      in if d < 1 / 2 then f else if 1 / 2 < d then f + 1 else if even f then f else f + 1)"

definition rnd :: "rat \<Rightarrow> number" where
  "rnd x =
     (if x \<le> 0 then Fin 0
      else let e = max (ilog2 x) (- 1022);
               q = pow2 (e - 52);
               y = of_int (round_half_even (x / q)) * q
           in if pow2 1024 \<le> y then Infinity else Fin y)"

fun fadd :: "number \<Rightarrow> number \<Rightarrow> number" where
  "fadd (Fin a) (Fin b) = rnd (a + b)"
| "fadd _ _ = Infinity"

fun fdiv :: "number \<Rightarrow> nat \<Rightarrow> number" where
  "fdiv (Fin a) n = rnd (a / of_nat n)"
| "fdiv Infinity n = Infinity"

text \<open>
  \<open>parseFloat(x.toFixed(2))\<close>: \<open>toFixed(2)\<close> prints the integer \<open>n\<close> for which \<open>n / 100\<close>
  is closest to \<open>x\<close> (the larger one of two), with two decimals, and \<open>parseFloat\<close> reads
  the decimal back; from \<open>10^21\<close> on, and for \<open>Infinity\<close>, \<open>toFixed\<close> prints the number
  itself.
\<close>

fun toFixed2 :: "number \<Rightarrow> number" where
  "toFixed2 (Fin x) = (if 10 ^ 21 \<le> x then Fin x else rnd (of_int \<lfloor>100 * x + 1 / 2\<rfloor> / 100))"
| "toFixed2 Infinity = Infinity"

text \<open>
  \<open>parseFloat(ethers.formatUnits(amount, 18))\<close>: \<open>formatUnits\<close> prints \<open>amount / 10^18\<close>
  exactly, as a decimal, and \<open>parseFloat\<close> rounds it to a number.
\<close>

definition parseFloat_formatUnits18 :: "uint256 \<Rightarrow> number" where
  "parseFloat_formatUnits18 amount = rnd (of_int (uint amount) / 10 ^ 18)"

section \<open>tools/leaderboard.js\<close>

text \<open>
  \<open>leaderboardData\<close> is a JavaScript \<open>Map\<close> from addresses to statistics objects. A
  \<open>Map\<close> iterates in insertion order, and \<open>set\<close> on a key that is present keeps its place:
  an association list with distinct keys. Each key has an object of its own. The counters
  \<open>wins\<close> and \<open>matchesPlayed\<close> are numbers too, but they only count events one by one and
  are exact below \<open>2^53\<close>: they are natural numbers here.
\<close>

record stats =
  wins :: nat
  totalGTWon :: number
  matchesPlayed :: nat

type_synonym leaderboardData = "(address \<times> stats) list"

definition map_has :: "leaderboardData \<Rightarrow> address \<Rightarrow> bool" where
  "map_has data k \<longleftrightarrow> map_of data k \<noteq> None"

definition map_get :: "leaderboardData \<Rightarrow> address \<Rightarrow> stats option" where
  "map_get data k = map_of data k"

fun map_set :: "leaderboardData \<Rightarrow> address \<Rightarrow> stats \<Rightarrow> leaderboardData" where
  "map_set [] k v = [(k, v)]"
| "map_set ((k', v') # rest) k v =
     (if k' = k then (k, v) # rest else (k', v') # map_set rest k v)"

definition PLAY_GAME_ABI :: "string list" where
  "PLAY_GAME_ABI =
     [''event MatchCreated(bytes32 indexed matchId, address p1, address p2, uint256 stake)'',
      ''event Staked(bytes32 indexed matchId, address player)'',
      ''event Settled(bytes32 indexed matchId, address winner, uint256 amount)'',
      ''event Refunded(bytes32 indexed matchId, address p1, address p2, uint256 amount)'']"

text \<open>
  An ethers \<open>Contract\<close> can call the functions that its ABI declares, and no others: a call
  of a name without a function fragment throws. \<open>contract_matches\<close> is
  \<open>await playGameContract.matches(matchId)\<close> on the contract object built from
  \<open>PLAY_GAME_ABI\<close>; \<open>chain\<close> is the read of the public mapping over RPC, \<open>None\<close> when it
  fails. \<open>None\<close> as the result is any exception: \<open>updateLoserStats\<close> catches all of them.
\<close>

definition has_function :: "string list \<Rightarrow> string \<Rightarrow> bool" where
  "has_function abi name \<longleftrightarrow>
     list_ex (\<lambda>fragment. take (length (''function '' @ name @ ''('')) fragment =
                           ''function '' @ name @ ''('') abi"

definition contract_matches :: "(bytes32 \<Rightarrow> Match option) \<Rightarrow> bytes32 \<Rightarrow> Match option" where
  "contract_matches chain matchId =
     (if has_function PLAY_GAME_ABI ''matches'' then chain matchId else None)"

definition zero_stats :: stats where
  "zero_stats = \<lparr>wins = 0, totalGTWon = Fin 0, matchesPlayed = 0\<rparr>"

definition on_MatchCreated ::
  "leaderboardData \<Rightarrow> bytes32 \<Rightarrow> address \<Rightarrow> address \<Rightarrow> uint256 \<Rightarrow> leaderboardData" where
  "on_MatchCreated data matchId p1' p2' stake' =
     (let data1 = (if \<not> map_has data p1' then map_set data p1' zero_stats else data)
      in if \<not> map_has data1 p2' then map_set data1 p2' zero_stats else data1)"

definition updateLoserStats ::
  "(bytes32 \<Rightarrow> Match option) \<Rightarrow> leaderboardData \<Rightarrow> bytes32 \<Rightarrow> address \<Rightarrow> leaderboardData" where
  "updateLoserStats chain data matchId winner =
     (case contract_matches chain matchId of
        None \<Rightarrow> data
      | Some match \<Rightarrow>
          (let loser = (if p1 match = winner then p2 match else p1 match)
           in case map_get data loser of
                Some stats \<Rightarrow> map_set data loser (stats\<lparr>matchesPlayed := matchesPlayed stats + 1\<rparr>)
              | None \<Rightarrow> map_set data loser \<lparr>wins = 0, totalGTWon = Fin 0, matchesPlayed = 1\<rparr>))"

definition on_Settled ::
  "(bytes32 \<Rightarrow> Match option) \<Rightarrow> leaderboardData \<Rightarrow> bytes32 \<Rightarrow> address \<Rightarrow> uint256
     \<Rightarrow> leaderboardData" where
  "on_Settled chain data matchId winner amount =
     (let data1 =
            (case map_get data winner of
               Some stats \<Rightarrow>
                 map_set data winner
                   (stats\<lparr>wins := wins stats + 1,
                          totalGTWon := fadd (totalGTWon stats) (parseFloat_formatUnits18 amount),
                          matchesPlayed := matchesPlayed stats + 1\<rparr>)
             | None \<Rightarrow>
                 map_set data winner
                   \<lparr>wins = 1, totalGTWon = parseFloat_formatUnits18 amount, matchesPlayed = 1\<rparr>)
      in updateLoserStats chain data1 matchId winner)"

definition on_Refunded ::
  "leaderboardData \<Rightarrow> bytes32 \<Rightarrow> address \<Rightarrow> address \<Rightarrow> uint256 \<Rightarrow> leaderboardData" where
  "on_Refunded data matchId p1' p2' amount =
     (let data1 = (case map_get data p1' of
                     Some stats \<Rightarrow> map_set data p1' (stats\<lparr>matchesPlayed := matchesPlayed stats + 1\<rparr>)
                   | None \<Rightarrow> data)
      in case map_get data1 p2' of
           Some stats \<Rightarrow> map_set data1 p2' (stats\<lparr>matchesPlayed := matchesPlayed stats + 1\<rparr>)
         | None \<Rightarrow> data1)"

definition on_Purchase ::
  "leaderboardData \<Rightarrow> address \<Rightarrow> uint256 \<Rightarrow> uint256 \<Rightarrow> leaderboardData" where
  "on_Purchase data buyer usdtAmount gtOut =
     (if \<not> map_has data buyer then map_set data buyer zero_stats else data)"

text \<open>
  The listeners, one event at a time in the order of delivery. The read in
  \<open>updateLoserStats\<close> is awaited, so its continuation runs after the listener has
  returned; it is taken here right after the winner's update.
\<close>

fun handle :: "(bytes32 \<Rightarrow> Match option) \<Rightarrow> leaderboardData \<Rightarrow> event \<Rightarrow> leaderboardData" where
  "handle chain data (MatchCreated matchId p1' p2' stake') = on_MatchCreated data matchId p1' p2' stake'"
| "handle chain data (Staked matchId player) = data"
| "handle chain data (Settled matchId winner amount) = on_Settled chain data matchId winner amount"
| "handle chain data (Refunded matchId p1' p2' amount) = on_Refunded data matchId p1' p2' amount"
| "handle chain data (Purchase buyer usdtAmount gtOut) = on_Purchase data buyer usdtAmount gtOut"

text \<open>The state after the events \<open>evs\<close>, from the empty map of a start or a reset.\<close>

definition aggregate :: "(bytes32 \<Rightarrow> Match option) \<Rightarrow> event list \<Rightarrow> leaderboardData" where
  "aggregate chain evs = foldl (handle chain) [] evs"

text \<open>\<open>GET /stats\<close>: the \<open>forEach\<close> loop adds up in insertion order.\<close>

record stats_response =
  totalPlayers :: nat
  totalWins :: nat
  totalGTWon_out :: number
  totalMatches :: nat
  averageGTPerPlayer :: number

definition get_stats :: "leaderboardData \<Rightarrow> stats_response" where
  "get_stats data =
     (let totalPlayers = length data;
          totalWins = foldl (\<lambda>acc stats. acc + wins stats) 0 (map snd data);
          totalGTWon = foldl (\<lambda>acc stats. fadd acc (totalGTWon stats)) (Fin 0) (map snd data);
          totalMatches = foldl (\<lambda>acc stats. acc + matchesPlayed stats) 0 (map snd data)
      in \<lparr>totalPlayers = totalPlayers,
          totalWins = totalWins,
          totalGTWon_out = toFixed2 totalGTWon,
          totalMatches = totalMatches,
          averageGTPerPlayer =
            (if totalPlayers > 0 then toFixed2 (fdiv totalGTWon totalPlayers) else Fin 0)\<rparr>)"

text \<open>
  What the claims speak about: the payouts a player has won among the events, as numbers
  in token units and in the order of the events; the sum of a list of numbers as the
  code adds them, from \<open>0\<close> and from the left; and the settlement payouts in base units.
\<close>

fun payout_of :: "address \<Rightarrow> event \<Rightarrow> number option" where
  "payout_of a (Settled matchId winner amount) =
     (if winner = a then Some (parseFloat_formatUnits18 amount) else None)"
| "payout_of a _ = None"

definition won :: "address \<Rightarrow> event list \<Rightarrow> number list" where
  "won a evs = List.map_filter (payout_of a) evs"

definition fsum :: "number list \<Rightarrow> number" where
  "fsum xs = foldl fadd (Fin 0) xs"

fun settled_amount :: "event \<Rightarrow> int" where
  "settled_amount (Settled matchId winner amount) = uint amount"
| "settled_amount _ = 0"

definition settled_total :: "event list \<Rightarrow> int" where
  "settled_total evs = sum_list (map settled_amount evs)"

definition entry_ok :: "event list \<Rightarrow> address \<Rightarrow> stats \<Rightarrow> bool" where
  "entry_ok evs a st \<longleftrightarrow> totalGTWon st = fsum (won a evs) \<and> wins st \<le> matchesPlayed st"

definition tally_ok :: "leaderboardData \<Rightarrow> event list \<Rightarrow> bool" where
  "tally_ok data evs \<longleftrightarrow>
     distinct (map fst data) \<and>
     (\<forall>a. case map_of data a of None \<Rightarrow> won a evs = [] | Some st \<Rightarrow> entry_ok evs a st)"

definition demo_chain :: "bytes32 \<Rightarrow> Match option" where
  "demo_chain matchId =
     (if matchId = 7
      then Some \<lparr>p1 = 2, p2 = 3, stake = 5000000000000000000, startTime = 2000,
                 status = SETTLED, p1Staked = True, p2Staked = True\<rparr>
      else Some zero_Match)"

definition demo_events :: "event list" where
  "demo_events =
     [MatchCreated 7 2 3 5000000000000000000, Staked 7 2, Staked 7 3,
      Settled 7 2 10000000000000000000]"

section \<open>Sums over all accounts and the ledger\<close>

lemma sum_fun_upd:
  fixes f :: "'a::finite \<Rightarrow> nat"
  shows "(\<Sum>x\<in>UNIV. (f(a := v)) x) + f a = (\<Sum>x\<in>UNIV. f x) + v"
proof -
  have 1: "(\<Sum>x\<in>UNIV. (f(a := v)) x) = v + (\<Sum>x\<in>UNIV - {a}. (f(a := v)) x)"
    using sum.remove [of UNIV a "f(a := v)"] by simp
  have 2: "(\<Sum>x\<in>UNIV. f x) = f a + (\<Sum>x\<in>UNIV - {a}. f x)"
    using sum.remove [of UNIV a f] by simp
  have 3: "(\<Sum>x\<in>UNIV - {a}. (f(a := v)) x) = (\<Sum>x\<in>UNIV - {a}. f x)"
    by (rule sum.cong) auto
  show ?thesis using 1 2 3 by simp
qed

lemma escrowed_upd:
  "escrowed (ms(i := m)) + locked (ms i) = escrowed ms + locked m"
proof -
  have "(\<Sum>j\<in>UNIV. locked ((ms(i := m)) j)) = (\<Sum>j\<in>UNIV. ((\<lambda>j. locked (ms j))(i := locked m)) j)"
    by (rule sum.cong) auto
  then show ?thesis
    unfolding escrowed_def using sum_fun_upd [of "\<lambda>j. locked (ms j)" i "locked m"] by presburger
qed

lemma move_fields:
  assumes "move l from to v = Some l'"
  shows "allowances l' = allowances l" "totalSupply l' = totalSupply l" "minter l' = minter l"
    "v \<le> balances l from"
  using assms by (auto simp: move_def Let_def split: if_splits)

lemma move_sum:
  assumes "move l from to v = Some l'"
  shows "(\<Sum>a\<in>UNIV. balances l' a) = (\<Sum>a\<in>UNIV. balances l a)"
proof -
  define b1 where "b1 = (balances l)(from := balances l from - v)"
  have le: "v \<le> balances l from" and b': "balances l' = b1(to := b1 to + v)"
    using assms by (auto simp: move_def Let_def b1_def split: if_splits)
  have "(\<Sum>a\<in>UNIV. b1 a) + balances l from = (\<Sum>a\<in>UNIV. balances l a) + (balances l from - v)"
    unfolding b1_def by (rule sum_fun_upd)
  moreover have "(\<Sum>a\<in>UNIV. (b1(to := b1 to + v)) a) + b1 to = (\<Sum>a\<in>UNIV. b1 a) + (b1 to + v)"
    by (rule sum_fun_upd)
  ultimately show ?thesis using le b' by simp
qed

lemma move_balances:
  assumes "move l from to v = Some l'"
  shows "balances l' x =
    (if x = to then (if from = to then balances l x else balances l x + v)
     else if x = from then balances l x - v else balances l x)"
  using assms by (auto simp: move_def Let_def split: if_splits)

lemma balance_le_supply: "ledger_ok l \<Longrightarrow> balances l a \<le> totalSupply l"
  unfolding ledger_ok_def using member_le_sum [of a UNIV "balances l"] by auto

lemma move_ledger_ok: "move l from to v = Some l' \<Longrightarrow> ledger_ok l \<Longrightarrow> ledger_ok l'"
  by (simp add: ledger_ok_def move_sum move_fields)

lemma transfer_inv:
  assumes "transfer l sender to amount = Some l'" and "sender \<noteq> this"
    and "ledger_ok l" and "\<forall>x. allowances l this x = 0"
  shows "ledger_ok l' \<and> (\<forall>x. allowances l' this x = 0) \<and> balances l this \<le> balances l' this"
proof -
  from assms(1) have m: "move l sender to (unat amount) = Some l'"
    by (simp add: transfer_def)
  show ?thesis
    using move_ledger_ok [OF m] move_fields(1) [OF m] move_balances [OF m, of this] assms(2-4)
    by simp
qed

lemma approve_inv:
  assumes "approve l sender spender amount = Some l'" and "sender \<noteq> this"
    and "ledger_ok l" and "\<forall>x. allowances l this x = 0"
  shows "ledger_ok l' \<and> (\<forall>x. allowances l' this x = 0) \<and> balances l this \<le> balances l' this"
  using assms by (auto simp: approve_def ledger_ok_def)

lemma transferFrom_inv:
  assumes "transferFrom l sender from to amount = Some l'"
    and "ledger_ok l" and "\<forall>x. allowances l this x = 0"
  shows "ledger_ok l' \<and> (\<forall>x. allowances l' this x = 0) \<and> balances l this \<le> balances l' this"
proof -
  define l1 where
    "l1 = l\<lparr>allowances := (allowances l)(from := (allowances l from)(sender := allowances l from sender - unat amount))\<rparr>"
  from assms(1) have le: "unat amount \<le> allowances l from sender"
    and m: "move l1 from to (unat amount) = Some l'"
    by (auto simp: transferFrom_def l1_def split: if_splits)
  have ok1: "ledger_ok l1" using assms(2) by (simp add: l1_def ledger_ok_def)
  have al1: "\<forall>x. allowances l1 this x = 0" using assms(3) by (auto simp: l1_def)
  have b1: "balances l1 = balances l" by (simp add: l1_def)
  have "from = this \<Longrightarrow> unat amount = 0" using le assms(3) by simp
  then have "balances l this \<le> balances l' this"
    using move_balances [OF m, of this] b1 by auto
  then show ?thesis
    using move_ledger_ok [OF m ok1] move_fields(1) [OF m] al1 by simp
qed

lemma mint_inv:
  assumes "mint l sender to amount = Some l'"
    and "ledger_ok l" and "\<forall>x. allowances l this x = 0"
  shows "ledger_ok l' \<and> (\<forall>x. allowances l' this x = 0) \<and> balances l this \<le> balances l' this"
proof -
  from assms(1) have lt: "totalSupply l + unat amount < 2 ^ 256"
    and l': "l' = l\<lparr>balances := (balances l)(to := balances l to + unat amount),
                    totalSupply := totalSupply l + unat amount\<rparr>"
    by (auto simp: mint_def split: if_splits)
  have "(\<Sum>a\<in>UNIV. ((balances l)(to := balances l to + unat amount)) a) + balances l to =
        (\<Sum>a\<in>UNIV. balances l a) + (balances l to + unat amount)"
    by (rule sum_fun_upd)
  then have "ledger_ok l'" using assms(2) lt by (simp add: l' ledger_ok_def)
  then show ?thesis using assms(3) by (simp add: l')
qed

lemma token_exec_inv:
  assumes "token_exec l sender tc = Some l'" and "sender \<noteq> this"
    and "ledger_ok l" and "\<forall>x. allowances l this x = 0"
  shows "ledger_ok l' \<and> (\<forall>x. allowances l' this x = 0) \<and> balances l this \<le> balances l' this"
proof (cases tc)
  case (Transfer to amount)
  then show ?thesis using assms transfer_inv by simp
next
  case (Approve spender amount)
  then show ?thesis using assms approve_inv by simp
next
  case (TransferFrom "from" to amount)
  then show ?thesis using assms transferFrom_inv by simp
next
  case (Mint to amount)
  then show ?thesis using assms mint_inv by simp
next
  case (SetTokenStore store)
  then show ?thesis using assms by (auto simp: ledger_ok_def)
qed

lemma match_ok_zero: "match_ok this zero_Match"
  by (simp add: match_ok_def zero_Match_def)

lemma locked_zero: "locked zero_Match = 0"
  by (simp add: locked_def zero_Match_def)

lemma inv_constructor:
  assumes "ledger_ok token" and "\<forall>x. allowances token this x = 0"
  shows "escrow_inv (constructor this sender token)"
  using assms by (simp add: escrow_inv_def constructor_def escrowed_def locked_zero match_ok_zero)

section \<open>What a successful call has done\<close>

lemma createMatch_Inr:
  assumes "createMatch s sender i a b k = Inr s'"
  shows "sender = owner s \<and> a \<noteq> 0 \<and> b \<noteq> 0 \<and> a \<noteq> b \<and> k \<noteq> 0 \<and> p1 (matches s i) = 0 \<and>
    s' = s\<lparr>matches := (matches s)(i :=
            \<lparr>p1 = a, p2 = b, stake = k, startTime = 0, status = PENDING,
             p1Staked = False, p2Staked = False\<rparr>),
          events := events s @ [MatchCreated i a b k]\<rparr>"
  using assms by (simp add: createMatch_def word_greater_zero_iff split: if_splits)

lemma stake_call_Inr:
  assumes "stake_call s sender now i = Inr s'"
  shows "\<exists>token' m2.
    p1 (matches s i) \<noteq> 0 \<and> status (matches s i) = PENDING \<and>
    (sender = p1 (matches s i) \<or> sender = p2 (matches s i)) \<and>
    (sender = p1 (matches s i) \<longrightarrow> \<not> p1Staked (matches s i)) \<and>
    (sender \<noteq> p1 (matches s i) \<longrightarrow> \<not> p2Staked (matches s i)) \<and>
    transferFrom (gameToken s) (self s) sender (self s) (stake (matches s i)) = Some token' \<and>
    s' = s\<lparr>gameToken := token', matches := (matches s)(i := m2),
          events := events s @ [Staked i sender]\<rparr> \<and>
    p1 m2 = p1 (matches s i) \<and> p2 m2 = p2 (matches s i) \<and> stake m2 = stake (matches s i) \<and>
    p1Staked m2 = (p1Staked (matches s i) \<or> sender = p1 (matches s i)) \<and>
    p2Staked m2 = (p2Staked (matches s i) \<or> sender \<noteq> p1 (matches s i)) \<and>
    status m2 = (if p1Staked m2 \<and> p2Staked m2 then STAKED else PENDING) \<and>
    startTime m2 = (if p1Staked m2 \<and> p2Staked m2 then now else startTime (matches s i))"
proof -
  let ?m = "matches s i"
  have g1: "p1 ?m \<noteq> 0"
    by (rule ccontr) (use assms in \<open>simp add: stake_call_def Let_def\<close>)
  have g2: "status ?m = PENDING"
    by (rule ccontr) (use assms g1 in \<open>simp add: stake_call_def Let_def\<close>)
  have g3: "sender = p1 ?m \<or> sender = p2 ?m"
    by (rule ccontr) (use assms g1 g2 in \<open>simp add: stake_call_def Let_def\<close>)
  have g4: "sender = p1 ?m \<longrightarrow> \<not> p1Staked ?m"
    using assms g1 g2 by (simp add: stake_call_def Let_def split: if_splits)
  have g5: "sender \<noteq> p1 ?m \<longrightarrow> \<not> p2Staked ?m"
    using assms g1 g2 g3 by (simp add: stake_call_def Let_def split: if_splits)
  show ?thesis
  proof (cases "sender = p1 ?m")
    case True
    with g4 have n1: "\<not> p1Staked ?m" by simp
    from assms g1 g2 True n1 obtain token' where
      tf: "transferFrom (gameToken s) (self s) sender (self s) (stake ?m) = Some token'"
      by (cases "transferFrom (gameToken s) (self s) sender (self s) (stake ?m)")
         (simp_all add: stake_call_def Let_def)
    show ?thesis
    proof (cases "p2Staked ?m")
      case both: True
      let ?m2 = "?m\<lparr>p1Staked := True, status := STAKED, startTime := now\<rparr>"
      have "s' = s\<lparr>gameToken := token', matches := (matches s)(i := ?m2),
                   events := events s @ [Staked i sender]\<rparr>"
        using assms g1 g2 True n1 tf both by (simp add: stake_call_def Let_def)
      then show ?thesis using g1 g2 True n1 tf both
        by (intro exI [of _ token'] exI [of _ ?m2]) simp
    next
      case one: False
      let ?m2 = "?m\<lparr>p1Staked := True\<rparr>"
      have "s' = s\<lparr>gameToken := token', matches := (matches s)(i := ?m2),
                   events := events s @ [Staked i sender]\<rparr>"
        using assms g1 g2 True n1 tf one by (simp add: stake_call_def Let_def)
      then show ?thesis using g1 g2 True n1 tf one
        by (intro exI [of _ token'] exI [of _ ?m2]) simp
    qed
  next
    case False
    with g5 g3 have n2: "\<not> p2Staked ?m" "sender = p2 ?m" by simp_all
    from assms g1 g2 False n2 obtain token' where
      tf: "transferFrom (gameToken s) (self s) sender (self s) (stake ?m) = Some token'"
      by (cases "transferFrom (gameToken s) (self s) sender (self s) (stake ?m)")
         (simp_all add: stake_call_def Let_def)
    show ?thesis
    proof (cases "p1Staked ?m")
      case both: True
      let ?m2 = "?m\<lparr>p2Staked := True, status := STAKED, startTime := now\<rparr>"
      have "s' = s\<lparr>gameToken := token', matches := (matches s)(i := ?m2),
                   events := events s @ [Staked i sender]\<rparr>"
        using assms g1 g2 False n2 tf both by (simp add: stake_call_def Let_def)
      then show ?thesis using g1 g2 False n2 tf both
        by (intro exI [of _ token'] exI [of _ ?m2]) simp
    next
      case one: False
      let ?m2 = "?m\<lparr>p2Staked := True\<rparr>"
      have "s' = s\<lparr>gameToken := token', matches := (matches s)(i := ?m2),
                   events := events s @ [Staked i sender]\<rparr>"
        using assms g1 g2 False n2 tf one by (simp add: stake_call_def Let_def)
      then show ?thesis using g1 g2 False n2 tf one
        by (intro exI [of _ token'] exI [of _ ?m2]) simp
    qed
  qed
qed

lemma commitResult_Inr:
  assumes "commitResult s sender i winner = Inr s'"
  shows "\<exists>payout token'.
    sender = backendOperator s \<and> p1 (matches s i) \<noteq> 0 \<and> status (matches s i) = STAKED \<and>
    (winner = p1 (matches s i) \<or> winner = p2 (matches s i)) \<and>
    checked_mul (stake (matches s i)) 2 = Some payout \<and>
    transfer (gameToken s) (self s) winner payout = Some token' \<and>
    s' = s\<lparr>gameToken := token',
          matches := (matches s)(i := (matches s i)\<lparr>status := SETTLED\<rparr>),
          events := events s @ [Settled i winner payout]\<rparr>"
proof -
  let ?m = "matches s i"
  have g0: "sender = backendOperator s"
    by (rule ccontr) (use assms in \<open>simp add: commitResult_def\<close>)
  have g1: "p1 ?m \<noteq> 0"
    by (rule ccontr) (use assms g0 in \<open>simp add: commitResult_def Let_def\<close>)
  have g2: "status ?m = STAKED"
    by (rule ccontr) (use assms g0 g1 in \<open>simp add: commitResult_def Let_def\<close>)
  have g3: "winner = p1 ?m \<or> winner = p2 ?m"
    by (rule ccontr) (use assms g0 g1 g2 in \<open>simp add: commitResult_def Let_def\<close>)
  from assms g0 g1 g2 g3 obtain payout where
    pay: "checked_mul (stake ?m) 2 = Some payout"
    by (cases "checked_mul (stake ?m) 2") (auto simp: commitResult_def Let_def)
  from assms g0 g1 g2 g3 pay obtain token' where
    tr: "transfer (gameToken s) (self s) winner payout = Some token'"
    by (cases "transfer (gameToken s) (self s) winner payout") (auto simp: commitResult_def Let_def)
  have "s' = s\<lparr>gameToken := token',
          matches := (matches s)(i := ?m\<lparr>status := SETTLED\<rparr>),
          events := events s @ [Settled i winner payout]\<rparr>"
    using assms g0 g1 g2 g3 pay tr by (auto simp: commitResult_def Let_def)
  then show ?thesis using g0 g1 g2 g3 pay tr by blast
qed

lemma refund_Inr:
  assumes "refund s sender now i = Inr s'"
  shows "\<exists>deadline token1 token2.
    p1 (matches s i) \<noteq> 0 \<and> status (matches s i) = STAKED \<and>
    checked_add (startTime (matches s i)) TIMEOUT_DURATION = Some deadline \<and> deadline \<le> now \<and>
    (if p1Staked (matches s i)
     then transfer (gameToken s) (self s) (p1 (matches s i)) (stake (matches s i))
     else Some (gameToken s)) = Some token1 \<and>
    (if p2Staked (matches s i)
     then transfer token1 (self s) (p2 (matches s i)) (stake (matches s i))
     else Some token1) = Some token2 \<and>
    s' = s\<lparr>gameToken := token2,
          matches := (matches s)(i := (matches s i)\<lparr>status := REFUNDED\<rparr>),
          events := events s @
            [Refunded i (p1 (matches s i)) (p2 (matches s i)) (stake (matches s i))]\<rparr>"
proof -
  let ?m = "matches s i"
  let ?t1 = "if p1Staked ?m then transfer (gameToken s) (self s) (p1 ?m) (stake ?m)
             else Some (gameToken s)"
  have g1: "p1 ?m \<noteq> 0"
    by (rule ccontr) (use assms in \<open>simp add: refund_def Let_def\<close>)
  have g2: "status ?m = STAKED"
    by (rule ccontr) (use assms g1 in \<open>simp add: refund_def Let_def\<close>)
  from assms g1 g2 obtain deadline where
    dl: "checked_add (startTime ?m) TIMEOUT_DURATION = Some deadline"
    by (cases "checked_add (startTime ?m) TIMEOUT_DURATION") (auto simp: refund_def Let_def)
  have g3: "deadline \<le> now"
    by (rule ccontr) (use assms g1 g2 dl in \<open>simp add: refund_def Let_def\<close>)
  from assms g1 g2 dl g3 obtain token1 where t1: "?t1 = Some token1"
    by (cases ?t1) (simp_all add: refund_def Let_def)
  let ?t2 = "if p2Staked ?m then transfer token1 (self s) (p2 ?m) (stake ?m) else Some token1"
  from assms g1 g2 dl g3 t1 obtain token2 where t2: "?t2 = Some token2"
    by (cases ?t2) (simp_all add: refund_def Let_def)
  have "s' = s\<lparr>gameToken := token2,
          matches := (matches s)(i := ?m\<lparr>status := REFUNDED\<rparr>),
          events := events s @ [Refunded i (p1 ?m) (p2 ?m) (stake ?m)]\<rparr>"
    using assms g1 g2 dl g3 t1 t2 by (simp add: refund_def Let_def)
  then show ?thesis using g1 g2 dl g3 t1 t2 by blast
qed

lemma setBackendOperator_Inr:
  assumes "setBackendOperator s sender operator = Inr s'"
  shows "sender = owner s \<and> s' = s\<lparr>backendOperator := operator\<rparr>"
  using assms by (auto simp: setBackendOperator_def split: if_splits)

section \<open>The invariant of the escrow\<close>

lemma transfer_out:
  assumes "transfer l this to amount = Some l'" and "ledger_ok l"
  shows "ledger_ok l'" "allowances l' = allowances l" "unat amount \<le> balances l this"
    "to \<noteq> this \<Longrightarrow> balances l' this = balances l this - unat amount"
    "to \<noteq> this \<Longrightarrow> balances l' to = balances l to + unat amount"
proof -
  from assms(1) have m: "move l this to (unat amount) = Some l'"
    by (simp add: transfer_def)
  show "ledger_ok l'" using move_ledger_ok [OF m assms(2)] .
  show "allowances l' = allowances l" using move_fields(1) [OF m] .
  show "unat amount \<le> balances l this" using move_fields(4) [OF m] .
  show "to \<noteq> this \<Longrightarrow> balances l' this = balances l this - unat amount"
    using move_balances [OF m, of this] by simp
  show "to \<noteq> this \<Longrightarrow> balances l' to = balances l to + unat amount"
    using move_balances [OF m, of to] by simp
qed

lemma transferFrom_pull:
  assumes "transferFrom l this sender this amount = Some l'" and "sender \<noteq> this"
    and "ledger_ok l"
  shows "ledger_ok l'" "allowances l' this = allowances l this"
    "balances l' this = balances l this + unat amount"
proof -
  define l1 where
    "l1 = l\<lparr>allowances := (allowances l)(sender := (allowances l sender)(this := allowances l sender this - unat amount))\<rparr>"
  from assms(1) have m: "move l1 sender this (unat amount) = Some l'"
    by (auto simp: transferFrom_def l1_def split: if_splits)
  have ok1: "ledger_ok l1" using assms(3) by (simp add: l1_def ledger_ok_def)
  show "ledger_ok l'" using move_ledger_ok [OF m ok1] .
  show "allowances l' this = allowances l this"
    using move_fields(1) [OF m] assms(2) by (simp add: l1_def)
  show "balances l' this = balances l this + unat amount"
    using move_balances [OF m, of this] assms(2) by (simp add: l1_def)
qed

lemma inv_createMatch:
  assumes "createMatch s sender i a b k = Inr s'" and "escrow_inv s"
  shows "escrow_inv s'"
proof -
  let ?m = "\<lparr>p1 = a, p2 = b, stake = k, startTime = 0, status = PENDING,
             p1Staked = False, p2Staked = False\<rparr>"
  from createMatch_Inr [OF assms(1)] have
    ab: "a \<noteq> 0" "b \<noteq> 0" "a \<noteq> b" "k \<noteq> 0" and fresh: "p1 (matches s i) = 0"
    and s': "s' = s\<lparr>matches := (matches s)(i := ?m), events := events s @ [MatchCreated i a b k]\<rparr>"
    by simp_all
  from assms(2) fresh have "matches s i = zero_Match"
    by (simp add: escrow_inv_def match_ok_def)
  then have "locked (matches s i) = 0" by (simp add: locked_zero)
  moreover have "locked ?m = 0" by (simp add: locked_def)
  ultimately have "escrowed ((matches s)(i := ?m)) = escrowed (matches s)"
    using escrowed_upd [of "matches s" i ?m] by simp
  moreover have "match_ok (self s) ?m" using ab by (simp add: match_ok_def)
  ultimately show ?thesis using assms(2) by (simp add: s' escrow_inv_def)
qed

lemma inv_stake_call:
  assumes "stake_call s sender now i = Inr s'" and "sender \<noteq> self s" and "now \<noteq> 0"
    and "escrow_inv s"
  shows "escrow_inv s'"
proof -
  let ?m = "matches s i"
  from stake_call_Inr [OF assms(1)] obtain token' m2 where
    pend: "status ?m = PENDING"
    and who: "sender = p1 ?m \<or> sender = p2 ?m" "sender = p1 ?m \<longrightarrow> \<not> p1Staked ?m"
      "sender \<noteq> p1 ?m \<longrightarrow> \<not> p2Staked ?m"
    and tf: "transferFrom (gameToken s) (self s) sender (self s) (stake ?m) = Some token'"
    and s': "s' = s\<lparr>gameToken := token', matches := (matches s)(i := m2),
                     events := events s @ [Staked i sender]\<rparr>"
    and m2: "p1 m2 = p1 ?m" "p2 m2 = p2 ?m" "stake m2 = stake ?m"
      "p1Staked m2 = (p1Staked ?m \<or> sender = p1 ?m)"
      "p2Staked m2 = (p2Staked ?m \<or> sender \<noteq> p1 ?m)"
      "status m2 = (if p1Staked m2 \<and> p2Staked m2 then STAKED else PENDING)"
      "startTime m2 = (if p1Staked m2 \<and> p2Staked m2 then now else startTime ?m)"
    by blast
  from assms(4) have ok: "ledger_ok (gameToken s)"
    and al: "\<forall>x. allowances (gameToken s) (self s) x = 0"
    and esc: "escrowed (matches s) \<le> balances (gameToken s) (self s)"
    and mok: "match_ok (self s) ?m" and all_ok: "\<forall>j. match_ok (self s) (matches s j)"
    by (simp_all add: escrow_inv_def)
  note pull = transferFrom_pull [OF tf assms(2) ok]
  have fl: "p1Staked m2 \<noteq> p1Staked ?m \<or> p2Staked m2 \<noteq> p2Staked ?m"
    "p1Staked m2 = p1Staked ?m \<or> p2Staked m2 = p2Staked ?m"
    "p1Staked ?m \<longrightarrow> p1Staked m2" "p2Staked ?m \<longrightarrow> p2Staked m2"
    using who m2(4,5) by blast+
  have st: "status m2 = PENDING \<or> status m2 = STAKED" using m2(6) by simp
  have "locked m2 = locked ?m + unat (stake ?m)"
    using pend fl st unfolding locked_def m2(3)
    by (cases "p1Staked m2"; cases "p2Staked m2"; cases "p1Staked ?m"; cases "p2Staked ?m") auto
  then have "escrowed ((matches s)(i := m2)) = escrowed (matches s) + unat (stake ?m)"
    using escrowed_upd [of "matches s" i m2] by simp
  then have esc': "escrowed ((matches s)(i := m2)) \<le> balances token' (self s)"
    using esc pull(3) by simp
  have ex: "p1 ?m \<noteq> 0" using stake_call_Inr [OF assms(1)] by blast
  with mok have parts: "p2 ?m \<noteq> 0" "p1 ?m \<noteq> p2 ?m" "stake ?m \<noteq> 0" "startTime ?m = 0"
    "p1Staked ?m \<longrightarrow> p1 ?m \<noteq> self s" "p2Staked ?m \<longrightarrow> p2 ?m \<noteq> self s"
    using pend by (simp_all add: match_ok_def)
  have new1: "p1Staked m2 \<longrightarrow> p1 ?m \<noteq> self s"
    using parts(5) m2(4) assms(2) by blast
  have new2: "p2Staked m2 \<longrightarrow> p2 ?m \<noteq> self s"
    using parts(6) m2(5) who(1) assms(2) by blast
  have mok': "match_ok (self s) m2"
    unfolding match_ok_def m2(1,2,3)
    using ex parts(1-4) new1 new2 m2(6,7) assms(3) by simp
  show ?thesis
    using pull(1,2) al esc' mok' all_ok by (simp add: s' escrow_inv_def)
qed

lemma checked_mul_Some: "checked_mul a b = Some c \<Longrightarrow> unat c = unat a * unat b"
  by (auto simp: checked_mul_def unat_word_ariths split: if_splits)

lemma checked_add_Some: "checked_add a b = Some c \<Longrightarrow> unat c = unat a + unat b"
  by (auto simp: checked_add_def unat_word_ariths split: if_splits)

lemma staked_match:
  assumes "match_ok this m" and "status m = STAKED"
  shows "p1Staked m" "p2Staked m" "p1 m \<noteq> this" "p2 m \<noteq> this" "p1 m \<noteq> 0" "p1 m \<noteq> p2 m"
    "startTime m \<noteq> 0" "locked m = 2 * unat (stake m)"
  using assms by (auto simp: match_ok_def locked_def zero_Match_def)

lemma match_ok_closed:
  assumes "match_ok this m" and "status m = STAKED" and "st \<noteq> PENDING"
  shows "match_ok this (m\<lparr>status := st\<rparr>)"
  using assms by (auto simp: match_ok_def zero_Match_def)

lemma inv_commitResult:
  assumes "commitResult s sender i winner = Inr s'" and "escrow_inv s"
  shows "escrow_inv s'"
proof -
  let ?m = "matches s i"
  from commitResult_Inr [OF assms(1)] obtain payout token' where
    st: "status ?m = STAKED" and win: "winner = p1 ?m \<or> winner = p2 ?m"
    and pay: "checked_mul (stake ?m) 2 = Some payout"
    and tr: "transfer (gameToken s) (self s) winner payout = Some token'"
    and s': "s' = s\<lparr>gameToken := token', matches := (matches s)(i := ?m\<lparr>status := SETTLED\<rparr>),
                     events := events s @ [Settled i winner payout]\<rparr>"
    by blast
  from assms(2) have ok: "ledger_ok (gameToken s)"
    and al: "\<forall>x. allowances (gameToken s) (self s) x = 0"
    and esc: "escrowed (matches s) \<le> balances (gameToken s) (self s)"
    and mok: "match_ok (self s) ?m" and all_ok: "\<forall>j. match_ok (self s) (matches s j)"
    by (simp_all add: escrow_inv_def)
  note sm = staked_match [OF mok st]
  have wne: "winner \<noteq> self s" using win sm(3,4) by auto
  note out = transfer_out [OF tr ok]
  have p: "unat payout = 2 * unat (stake ?m)" using checked_mul_Some [OF pay] by simp
  have "locked (?m\<lparr>status := SETTLED\<rparr>) = 0" by (simp add: locked_def)
  then have "escrowed ((matches s)(i := ?m\<lparr>status := SETTLED\<rparr>)) + 2 * unat (stake ?m) = escrowed (matches s)"
    using escrowed_upd [of "matches s" i "?m\<lparr>status := SETTLED\<rparr>"] sm(8) by simp
  then have esc': "escrowed ((matches s)(i := ?m\<lparr>status := SETTLED\<rparr>)) \<le> balances token' (self s)"
    using esc out(4) [OF wne] p by simp
  have mok': "match_ok (self s) (?m\<lparr>status := SETTLED\<rparr>)"
    using match_ok_closed [OF mok st] by simp
  show ?thesis
    using out(1,2) al esc' mok' all_ok by (simp add: s' escrow_inv_def)
qed

lemma inv_refund:
  assumes "refund s sender now i = Inr s'" and "escrow_inv s"
  shows "escrow_inv s'"
proof -
  let ?m = "matches s i"
  from assms(2) have ok: "ledger_ok (gameToken s)"
    and al: "\<forall>x. allowances (gameToken s) (self s) x = 0"
    and esc: "escrowed (matches s) \<le> balances (gameToken s) (self s)"
    and mok: "match_ok (self s) ?m" and all_ok: "\<forall>j. match_ok (self s) (matches s j)"
    by (simp_all add: escrow_inv_def)
  from refund_Inr [OF assms(1)] obtain token1 token2 where
    st: "status ?m = STAKED"
    and t1: "(if p1Staked ?m then transfer (gameToken s) (self s) (p1 ?m) (stake ?m)
              else Some (gameToken s)) = Some token1"
    and t2: "(if p2Staked ?m then transfer token1 (self s) (p2 ?m) (stake ?m)
              else Some token1) = Some token2"
    and s': "s' = s\<lparr>gameToken := token2, matches := (matches s)(i := ?m\<lparr>status := REFUNDED\<rparr>),
                     events := events s @ [Refunded i (p1 ?m) (p2 ?m) (stake ?m)]\<rparr>"
    by blast
  note sm = staked_match [OF mok st]
  from t1 sm(1) have tr1: "transfer (gameToken s) (self s) (p1 ?m) (stake ?m) = Some token1"
    by simp
  from t2 sm(2) have tr2: "transfer token1 (self s) (p2 ?m) (stake ?m) = Some token2"
    by simp
  note out1 = transfer_out [OF tr1 ok]
  note out2 = transfer_out [OF tr2 out1(1)]
  have b2: "balances token2 (self s) = balances (gameToken s) (self s) - 2 * unat (stake ?m)"
    using out1(4) [OF sm(3)] out2(4) [OF sm(4)] by simp
  have le2: "2 * unat (stake ?m) \<le> balances (gameToken s) (self s)"
    using out1(3) out2(3) out1(4) [OF sm(3)] by simp
  have "locked (?m\<lparr>status := REFUNDED\<rparr>) = 0" by (simp add: locked_def)
  then have "escrowed ((matches s)(i := ?m\<lparr>status := REFUNDED\<rparr>)) + 2 * unat (stake ?m) = escrowed (matches s)"
    using escrowed_upd [of "matches s" i "?m\<lparr>status := REFUNDED\<rparr>"] sm(8) by simp
  then have esc': "escrowed ((matches s)(i := ?m\<lparr>status := REFUNDED\<rparr>)) \<le> balances token2 (self s)"
    using esc b2 by simp
  have mok': "match_ok (self s) (?m\<lparr>status := REFUNDED\<rparr>)"
    using match_ok_closed [OF mok st] by simp
  show ?thesis
    using out2(1,2) out1(2) al esc' mok' all_ok by (simp add: s' escrow_inv_def)
qed

lemma inv_setBackendOperator:
  assumes "setBackendOperator s sender operator = Inr s'" and "escrow_inv s"
  shows "escrow_inv s'"
  using setBackendOperator_Inr [OF assms(1)] assms(2) by (simp add: escrow_inv_def)

lemma inv_exec:
  assumes "exec s sender now c = Inr s'" and "sender \<noteq> self s" and "now \<noteq> 0" and "escrow_inv s"
  shows "escrow_inv s'"
proof (cases c)
  case (CreateMatch i a b k)
  then show ?thesis using assms inv_createMatch by simp
next
  case (Stake i)
  then show ?thesis using assms inv_stake_call by simp
next
  case (CommitResult i w)
  then show ?thesis using assms inv_commitResult by simp
next
  case (Refund i)
  then show ?thesis using assms inv_refund by simp
next
  case (SetBackendOperator a)
  then show ?thesis using assms inv_setBackendOperator by simp
qed

lemma inv_step:
  assumes "step s s'" and "escrow_inv s"
  shows "escrow_inv s'"
  using assms
proof (induction rule: step.induct)
  case (call sender s now c s')
  then show ?case using inv_exec by blast
next
  case (token sender s tc l')
  from token(3) have ok: "ledger_ok (gameToken s)"
    and al: "\<forall>x. allowances (gameToken s) (self s) x = 0"
    by (simp_all add: escrow_inv_def)
  from token_exec_inv [OF token(2,1) ok al] token(3) show ?case
    by (simp add: escrow_inv_def)
next
  case (ownership s newOwner)
  then show ?case by (simp add: escrow_inv_def)
qed

lemma reachable_inv: "reachable s \<Longrightarrow> escrow_inv s"
  by (induction rule: reachable.induct) (simp_all add: inv_constructor inv_step)

section \<open>The scenario, step by step\<close>

lemma sum_two_point:
  fixes a b :: "'a::finite"
  assumes "a \<noteq> b"
  shows "(\<Sum>x\<in>UNIV. ((\<lambda>_. 0::nat)(a := u, b := v)) x) = u + v"
proof -
  have "(\<Sum>x\<in>UNIV. ((\<lambda>_. 0::nat)(a := u, b := v)) x) + ((\<lambda>_. 0::nat)(a := u)) b
        = (\<Sum>x\<in>UNIV. ((\<lambda>_. 0::nat)(a := u)) x) + v"
    by (rule sum_fun_upd)
  moreover have "(\<Sum>x\<in>UNIV. ((\<lambda>_. 0::nat)(a := u)) x) + (\<lambda>_. 0::nat) a = (\<Sum>x\<in>(UNIV::'a set). (\<lambda>_. 0::nat) x) + u"
    by (rule sum_fun_upd)
  ultimately show ?thesis using assms by simp
qed

lemma demo_token_ok: "ledger_ok demo_token"
  using sum_two_point [of "2::address" 3 20000000000000000000 20000000000000000000]
  by (simp add: ledger_ok_def demo_token_def)

lemma demo1_eq: "exec demo0 1 1000 (CreateMatch 7 2 3 5000000000000000000) = Inr demo1"
  by (simp add: demo1_def apply_call_def demo0_def constructor_def createMatch_def
      zero_Match_def)

lemma demo1_val: "demo1 = demo0\<lparr>matches := (matches demo0)(7 :=
       \<lparr>p1 = 2, p2 = 3, stake = 5000000000000000000, startTime = 0, status = PENDING,
             p1Staked = False, p2Staked = False\<rparr>), events := [MatchCreated 7 2 3 5000000000000000000]\<rparr>"
  by (simp add: demo1_def apply_call_def demo0_def constructor_def createMatch_def
      zero_Match_def)

lemmas demo_defs = apply_call_def demo0_def constructor_def createMatch_def zero_Match_def
  stake_call_def transferFrom_def move_def demo_token_def Let_def

lemma demo2_exec: "exec demo1 2 1000 (Stake 7) = Inr demo2"
  unfolding demo2_def by (simp add: demo1_val demo_defs)

lemma demo2_match: "matches demo2 7 = \<lparr>p1 = 2, p2 = 3, stake = 5000000000000000000, startTime = 0, status = PENDING,
             p1Staked = True, p2Staked = False\<rparr>"
  unfolding demo2_def by (simp add: demo1_val demo_defs)

lemma demo2_fields: "self demo2 = 100" "owner demo2 = 1" "backendOperator demo2 = 1"
  "balances (gameToken demo2) 100 = 5000000000000000000"
  "balances (gameToken demo2) 2 = 15000000000000000000"
  "balances (gameToken demo2) 3 = 20000000000000000000"
  "allowances (gameToken demo2) 3 100 = 5000000000000000000"
  unfolding demo2_def by (simp_all add: demo1_val demo_defs)

lemma demo3_exec: "exec demo2 3 2000 (Stake 7) = Inr demo3"
  unfolding demo3_def by (simp add: demo2_match demo2_fields apply_call_def stake_call_def transferFrom_def move_def Let_def)

lemma demo3_match: "matches demo3 7 = \<lparr>p1 = 2, p2 = 3, stake = 5000000000000000000, startTime = 2000, status = STAKED,
             p1Staked = True, p2Staked = True\<rparr>"
  unfolding demo3_def by (simp add: demo2_match demo2_fields apply_call_def stake_call_def transferFrom_def move_def Let_def)

lemma demo3_fields: "self demo3 = 100" "owner demo3 = 1" "backendOperator demo3 = 1"
  "balances (gameToken demo3) 100 = 10000000000000000000"
  "balances (gameToken demo3) 2 = 15000000000000000000"
  "balances (gameToken demo3) 3 = 15000000000000000000"
  unfolding demo3_def by (simp_all add: demo2_match demo2_fields apply_call_def stake_call_def transferFrom_def move_def Let_def)

lemma reachable_demo0: "reachable demo0"
  unfolding demo0_def by (rule reachable.init) (simp_all add: demo_token_ok, simp add: demo_token_def)

lemma reachable_demo1: "reachable demo1"
  by (rule reachable.step [OF reachable_demo0 step.call [OF _ _ demo1_eq]])
     (simp_all add: demo0_def constructor_def)

lemma reachable_demo2: "reachable demo2"
  by (rule reachable.step [OF reachable_demo1 step.call [OF _ _ demo2_exec]])
     (simp_all add: demo1_val demo0_def constructor_def)

lemma reachable_demo3: "reachable demo3"
  by (rule reachable.step [OF reachable_demo2 step.call [OF _ _ demo3_exec]])
     (simp_all add: demo2_fields)

section \<open>The claims about PlayGame\<close>

lemma locked_le_escrowed: "locked (ms i) \<le> escrowed ms"
  unfolding escrowed_def using member_le_sum [of i UNIV "\<lambda>j. locked (ms j)"] by simp

lemma staked_funds:
  assumes "escrow_inv s" and "status (matches s i) = STAKED"
  shows "2 * unat (stake (matches s i)) \<le> balances (gameToken s) (self s)"
    "balances (gameToken s) (self s) < 2 ^ 256"
proof -
  from assms(1) have ok: "ledger_ok (gameToken s)"
    and esc: "escrowed (matches s) \<le> balances (gameToken s) (self s)"
    and mok: "match_ok (self s) (matches s i)"
    by (simp_all add: escrow_inv_def)
  show "2 * unat (stake (matches s i)) \<le> balances (gameToken s) (self s)"
    using staked_match(8) [OF mok assms(2)] locked_le_escrowed [of "matches s" i] esc by simp
  show "balances (gameToken s) (self s) < 2 ^ 256"
    using balance_le_supply [OF ok, of "self s"] ok by (simp add: ledger_ok_def)
qed

lemma move_Some:
  "v \<le> balances l from \<Longrightarrow> \<exists>l'. move l from to v = Some l'"
  by (simp add: move_def Let_def)


text \<open>
  Claim C1. For a match in status STAKED of a reachable state, \<open>commitResult\<close> called by
  the backend operator with one of the two players as winner succeeds: it moves exactly
  \<open>2 * stake\<close> tokens from the escrow to the winner (no other balance changes), sets the
  status to SETTLED and emits \<open>Settled\<close> with that amount. With a winner that is neither
  player the call is rejected, whoever calls and whatever the state, and changes nothing.
\<close>

theorem commitResult_pays_winner:
  "(reachable s \<and> status (matches s i) = STAKED \<and> sender = backendOperator s \<and>
      (winner = p1 (matches s i) \<or> winner = p2 (matches s i))
    \<longrightarrow> (\<exists>s'. commitResult s sender i winner = Inr s' \<and> settled_state s i winner s')) \<and>
   (winner \<noteq> p1 (matches s i) \<and> winner \<noteq> p2 (matches s i)
    \<longrightarrow> (\<exists>e. commitResult s sender i winner = Inl e) \<and>
        apply_call s sender now (CommitResult i winner) = s)"
proof (intro conjI impI)
  assume h: "reachable s \<and> status (matches s i) = STAKED \<and> sender = backendOperator s \<and>
      (winner = p1 (matches s i) \<or> winner = p2 (matches s i))"
  let ?m = "matches s i"
  let ?l = "gameToken s"
  from h have escrow_inv: "escrow_inv s" and st: "status ?m = STAKED" and op: "sender = backendOperator s"
    and win: "winner = p1 ?m \<or> winner = p2 ?m"
    by (simp_all add: reachable_inv)
  from escrow_inv have mok: "match_ok (self s) ?m" by (simp add: escrow_inv_def)
  note sm = staked_match [OF mok st]
  note funds = staked_funds [OF escrow_inv st]
  have wne: "winner \<noteq> self s" using win sm(3,4) by auto
  have small: "unat (stake ?m) * unat (2 :: uint256) < 2 ^ 256" using funds by simp
  then have pay: "checked_mul (stake ?m) 2 = Some (stake ?m * 2)"
    by (simp add: checked_mul_def)
  have up: "unat (stake ?m * 2) = 2 * unat (stake ?m)"
    using checked_mul_Some [OF pay] by simp
  obtain l' where mv: "move ?l (self s) winner (unat (stake ?m * 2)) = Some l'"
    using move_Some [of "unat (stake ?m * 2)" ?l "self s" winner] funds(1) up by auto
  then have tr: "transfer ?l (self s) winner (stake ?m * 2) = Some l'"
    by (simp add: transfer_def)
  let ?s' = "s\<lparr>gameToken := l', matches := (matches s)(i := ?m\<lparr>status := SETTLED\<rparr>),
               events := events s @ [Settled i winner (stake ?m * 2)]\<rparr>"
  have res: "commitResult s sender i winner = Inr ?s'"
    using op sm(5) st win pay tr by (simp add: commitResult_def Let_def)
  have "settled_state s i winner ?s'"
    unfolding settled_state_def
    using move_balances [OF mv] wne up funds(1) by simp
  with res show "\<exists>s'. commitResult s sender i winner = Inr s' \<and> settled_state s i winner s'"
    by blast
next
  assume h: "winner \<noteq> p1 (matches s i) \<and> winner \<noteq> p2 (matches s i)"
  then show "\<exists>e. commitResult s sender i winner = Inl e"
    by (simp add: commitResult_def Let_def)
  then show "apply_call s sender now (CommitResult i winner) = s"
    by (auto simp: apply_call_def)
qed

theorem commitResult_pays_winner_witness:
  "reachable demo3 \<and> status (matches demo3 7) = STAKED \<and> backendOperator demo3 = 1 \<and>
   p1 (matches demo3 7) = 2 \<and> p2 (matches demo3 7) = 3 \<and>
   (\<exists>s'. commitResult demo3 1 7 2 = Inr s' \<and> settled_state demo3 7 2 s') \<and>
   (\<exists>e. commitResult demo3 1 7 4 = Inl e) \<and>
   apply_call demo3 1 3000 (CommitResult 7 4) = demo3"
  using commitResult_pays_winner [of demo3 7 1 2 3000]
    commitResult_pays_winner [of demo3 7 1 4 3000] reachable_demo3
  by (simp add: demo3_match demo3_fields)

lemma exec_status_step:
  assumes "exec s sender now c = Inr s'" and "escrow_inv s"
  shows "status_step (status (matches s i)) (status (matches s' i))"
proof (cases c)
  case (CreateMatch j a b k)
  with assms(1) have cm: "createMatch s sender j a b k = Inr s'" by simp
  from createMatch_Inr [OF cm] have fresh: "p1 (matches s j) = 0"
    and s': "matches s' = (matches s)(j :=
            \<lparr>p1 = a, p2 = b, stake = k, startTime = 0, status = PENDING,
             p1Staked = False, p2Staked = False\<rparr>)"
    by simp_all
  from assms(2) fresh have "matches s j = zero_Match" by (simp add: escrow_inv_def match_ok_def)
  then have "status (matches s j) = PENDING" by (simp add: zero_Match_def)
  then show ?thesis by (simp add: s' status_step_def)
next
  case (Stake j)
  with assms(1) have sc: "stake_call s sender now j = Inr s'" by simp
  from stake_call_Inr [OF sc] obtain token' m2 where
    pend: "status (matches s j) = PENDING"
    and s': "s' = s\<lparr>gameToken := token', matches := (matches s)(j := m2),
                     events := events s @ [Staked j sender]\<rparr>"
    and st2: "status m2 = (if p1Staked m2 \<and> p2Staked m2 then STAKED else PENDING)"
    by blast
  have "matches s' = (matches s)(j := m2)" by (simp add: s')
  with pend st2 show ?thesis by (simp add: status_step_def)
next
  case (CommitResult j w)
  with assms(1) have cr: "commitResult s sender j w = Inr s'" by simp
  from commitResult_Inr [OF cr] have
    "status (matches s j) = STAKED" "matches s' = (matches s)(j := (matches s j)\<lparr>status := SETTLED\<rparr>)"
    by auto
  then show ?thesis by (simp add: status_step_def)
next
  case (Refund j)
  with assms(1) have rf: "refund s sender now j = Inr s'" by simp
  from refund_Inr [OF rf] have
    "status (matches s j) = STAKED" "matches s' = (matches s)(j := (matches s j)\<lparr>status := REFUNDED\<rparr>)"
    by auto
  then show ?thesis by (simp add: status_step_def)
next
  case (SetBackendOperator a)
  with assms(1) have "matches s' = matches s"
    using setBackendOperator_Inr [of s sender a s'] by simp
  then show ?thesis by (simp add: status_step_def)
qed

lemma step_status_step:
  assumes "step s s'" and "escrow_inv s"
  shows "status_step (status (matches s i)) (status (matches s' i))"
  using assms
proof (induction rule: step.induct)
  case (call sender s now c s')
  then show ?case using exec_status_step by blast
qed (simp_all add: status_step_def)

lemma status_step_path: "status_path a b \<Longrightarrow> status_step b c \<Longrightarrow> status_path a c"
  by (auto simp: status_path_def status_step_def)

lemma steps_inv: "step\<^sup>*\<^sup>* s s' \<Longrightarrow> escrow_inv s \<Longrightarrow> escrow_inv s'"
  by (induction rule: rtranclp_induct) (simp_all add: inv_step)

lemma steps_status_path:
  assumes "step\<^sup>*\<^sup>* s s'" and "escrow_inv s"
  shows "status_path (status (matches s i)) (status (matches s' i))"
  using assms
proof (induction rule: rtranclp_induct)
  case base
  then show ?case by (simp add: status_path_def)
next
  case (step y z)
  then show ?case
    using status_step_path step_status_step steps_inv by blast
qed

text \<open>
  Claim C2. In a reachable state, no transaction (a call of \<open>createMatch\<close>, \<open>stake\<close>,
  \<open>commitResult\<close>, \<open>refund\<close> or \<open>setBackendOperator\<close> by any sender at any time, completed
  or reverted, or any other step of the system) moves the status of any match except along
  one arrow of \<open>PENDING \<rightarrow> STAKED \<rightarrow> {SETTLED, REFUNDED}\<close>: a SETTLED or REFUNDED match keeps
  its status, and a PENDING match does not become SETTLED or REFUNDED in one step. Over any
  sequence of steps the status therefore only moves forward along the diagram.
\<close>

theorem status_transitions:
  "(reachable s \<and> step s s' \<longrightarrow> status_step (status (matches s i)) (status (matches s' i))) \<and>
   (reachable s \<longrightarrow>
      status_step (status (matches s i)) (status (matches (apply_call s sender now c) i))) \<and>
   (reachable s \<and> step\<^sup>*\<^sup>* s s'' \<longrightarrow> status_path (status (matches s i)) (status (matches s'' i)))"
proof (intro conjI impI)
  assume "reachable s \<and> step s s'"
  then show "status_step (status (matches s i)) (status (matches s' i))"
    using step_status_step reachable_inv by blast
next
  assume r: "reachable s"
  show "status_step (status (matches s i)) (status (matches (apply_call s sender now c) i))"
  proof (cases "exec s sender now c")
    case (Inl e)
    then show ?thesis by (simp add: apply_call_def status_step_def)
  next
    case (Inr t)
    then show ?thesis using exec_status_step [OF Inr reachable_inv [OF r]]
      by (simp add: apply_call_def)
  qed
next
  assume "reachable s \<and> step\<^sup>*\<^sup>* s s''"
  then show "status_path (status (matches s i)) (status (matches s'' i))"
    using steps_status_path reachable_inv by blast
qed

lemma step_demo2_demo3: "step demo2 demo3"
  by (rule step.call [OF _ _ demo3_exec]) (simp_all add: demo2_fields)

theorem status_transitions_witness:
  "reachable demo2 \<and> step demo2 demo3 \<and> step\<^sup>*\<^sup>* demo2 demo3 \<and>
   status (matches demo2 7) = PENDING \<and> status (matches demo3 7) = STAKED \<and>
   status_step (status (matches demo2 7)) (status (matches demo3 7)) \<and>
   status_step (status (matches demo3 7))
     (status (matches (apply_call demo3 1 3000 (CommitResult 7 4)) 7)) \<and>
   status_path (status (matches demo2 7)) (status (matches demo3 7))"
  using status_transitions [of demo2 demo3 7 1 3000 "CommitResult 7 4" demo3]
    status_transitions [of demo3 demo3 7 1 3000 "CommitResult 7 4" demo3]
    reachable_demo2 reachable_demo3 step_demo2_demo3
    r_into_rtranclp [of step, OF step_demo2_demo3]
  by (simp add: demo2_match demo3_match)

text \<open>
  Claim C4. For a STAKED match of a reachable state, \<open>refund\<close> succeeds (and marks the
  match REFUNDED) exactly when \<open>block.timestamp \<ge> startTime + 24 hours\<close>, whoever calls:
  at the boundary and later it succeeds, before it (one second before too) it is rejected.
\<close>

theorem refund_iff_timeout:
  "reachable s \<and> status (matches s i) = STAKED \<longrightarrow>
     ((\<exists>s'. refund s sender now i = Inr s' \<and> status (matches s' i) = REFUNDED) \<longleftrightarrow>
      unat (startTime (matches s i)) + 86400 \<le> unat now)"
proof (intro impI iffI)
  assume h: "reachable s \<and> status (matches s i) = STAKED"
    and "\<exists>s'. refund s sender now i = Inr s' \<and> status (matches s' i) = REFUNDED"
  then obtain s' where rf: "refund s sender now i = Inr s'" by blast
  from refund_Inr [OF rf] obtain deadline where
    dl: "checked_add (startTime (matches s i)) TIMEOUT_DURATION = Some deadline"
    and le: "deadline \<le> now"
    by blast
  have "unat deadline = unat (startTime (matches s i)) + 86400"
    using checked_add_Some [OF dl] by (simp add: TIMEOUT_DURATION_def)
  with le show "unat (startTime (matches s i)) + 86400 \<le> unat now"
    by (simp add: word_le_nat_alt)
next
  let ?m = "matches s i"
  let ?l = "gameToken s"
  assume h: "reachable s \<and> status ?m = STAKED"
    and t: "unat (startTime ?m) + 86400 \<le> unat now"
  from h have escrow_inv: "escrow_inv s" and st: "status ?m = STAKED" by (simp_all add: reachable_inv)
  from escrow_inv have mok: "match_ok (self s) ?m" by (simp add: escrow_inv_def)
  note sm = staked_match [OF mok st]
  note funds = staked_funds [OF escrow_inv st]
  have "unat now < 2 ^ 256" using unsigned_less [of now] by simp
  with t have small: "unat (startTime ?m) + unat TIMEOUT_DURATION < 2 ^ 256"
    by (simp add: TIMEOUT_DURATION_def)
  then have dl: "checked_add (startTime ?m) TIMEOUT_DURATION = Some (startTime ?m + TIMEOUT_DURATION)"
    by (simp add: checked_add_def)
  have "unat (startTime ?m + TIMEOUT_DURATION) = unat (startTime ?m) + 86400"
    using checked_add_Some [OF dl] by (simp add: TIMEOUT_DURATION_def)
  with t have le: "startTime ?m + TIMEOUT_DURATION \<le> now"
    by (simp add: word_le_nat_alt)
  obtain l1 where mv1: "move ?l (self s) (p1 ?m) (unat (stake ?m)) = Some l1"
    using move_Some [of "unat (stake ?m)" ?l "self s" "p1 ?m"] funds(1) by auto
  have "unat (stake ?m) \<le> balances l1 (self s)"
    using move_balances [OF mv1, of "self s"] sm(3) funds(1) by simp
  then obtain l2 where mv2: "move l1 (self s) (p2 ?m) (unat (stake ?m)) = Some l2"
    using move_Some [of "unat (stake ?m)" l1 "self s" "p2 ?m"] by auto
  let ?s' = "s\<lparr>gameToken := l2, matches := (matches s)(i := ?m\<lparr>status := REFUNDED\<rparr>),
               events := events s @ [Refunded i (p1 ?m) (p2 ?m) (stake ?m)]\<rparr>"
  have "refund s sender now i = Inr ?s'"
    using sm(1,2,5) st dl le mv1 mv2 by (simp add: refund_def Let_def transfer_def)
  then show "\<exists>s'. refund s sender now i = Inr s' \<and> status (matches s' i) = REFUNDED"
    by simp
qed

theorem refund_iff_timeout_witness:
  "reachable demo3 \<and> status (matches demo3 7) = STAKED \<and> startTime (matches demo3 7) = 2000 \<and>
   (\<exists>s'. refund demo3 5 88400 7 = Inr s' \<and> status (matches s' 7) = REFUNDED) \<and>
   (\<exists>s'. refund demo3 5 90000 7 = Inr s' \<and> status (matches s' 7) = REFUNDED) \<and>
   \<not> (\<exists>s'. refund demo3 5 88399 7 = Inr s' \<and> status (matches s' 7) = REFUNDED)"
  using refund_iff_timeout [of demo3 7 5 88400] refund_iff_timeout [of demo3 7 5 90000]
    refund_iff_timeout [of demo3 7 5 88399] reachable_demo3
  by (simp add: demo3_match)

text \<open>
  Claim C6. In a reachable state, \<open>stake\<close> is rejected when the caller has already staked
  for the match, when the caller is neither of its two players, when the match is not
  PENDING, and when the id is unknown. A rejected \<open>stake\<close>, for these or any other reason
  (a failing token pull too, which comes after the flag has been written), leaves the
  whole state as it was: flags, balances, allowances and event log.
\<close>

theorem stake_rejected:
  "(reachable s \<and>
      ((sender = p1 (matches s i) \<and> p1Staked (matches s i)) \<or>
       (sender = p2 (matches s i) \<and> p2Staked (matches s i)) \<or>
       (sender \<noteq> p1 (matches s i) \<and> sender \<noteq> p2 (matches s i)) \<or>
       status (matches s i) \<noteq> PENDING \<or>
       p1 (matches s i) = 0)
    \<longrightarrow> (\<exists>e. stake_call s sender now i = Inl e)) \<and>
   ((\<exists>e. stake_call s sender now i = Inl e) \<longrightarrow> apply_call s sender now (Stake i) = s)"
proof (intro conjI impI)
  let ?m = "matches s i"
  assume h: "reachable s \<and>
      ((sender = p1 ?m \<and> p1Staked ?m) \<or> (sender = p2 ?m \<and> p2Staked ?m) \<or>
       (sender \<noteq> p1 ?m \<and> sender \<noteq> p2 ?m) \<or> status ?m \<noteq> PENDING \<or> p1 ?m = 0)"
  then have mok: "match_ok (self s) ?m" using reachable_inv by (simp add: escrow_inv_def)
  show "\<exists>e. stake_call s sender now i = Inl e"
  proof (cases "p1 ?m = 0 \<or> status ?m \<noteq> PENDING \<or> (sender \<noteq> p1 ?m \<and> sender \<noteq> p2 ?m)")
    case True
    then show ?thesis by (auto simp: stake_call_def Let_def)
  next
    case False
    then have ex: "p1 ?m \<noteq> 0" and pend: "status ?m = PENDING"
      and pl: "sender = p1 ?m \<or> sender = p2 ?m"
      by auto
    from mok ex have ne: "p1 ?m \<noteq> p2 ?m" by (simp add: match_ok_def)
    from h False have "(sender = p1 ?m \<and> p1Staked ?m) \<or> (sender = p2 ?m \<and> p2Staked ?m)"
      by blast
    then have "stake_call s sender now i = Inl (Revert ''Already staked'')"
      using ex pend ne by (auto simp: stake_call_def Let_def)
    then show ?thesis by blast
  qed
next
  assume "\<exists>e. stake_call s sender now i = Inl e"
  then show "apply_call s sender now (Stake i) = s"
    by (auto simp: apply_call_def)
qed

lemma demo2_unknown: "matches demo2 8 = zero_Match"
  unfolding demo2_def by (simp add: demo1_val demo_defs)

theorem stake_rejected_witness:
  "reachable demo2 \<and> p1 (matches demo2 7) = 2 \<and> p1Staked (matches demo2 7) \<and>
   (\<exists>e. stake_call demo2 2 1500 7 = Inl e) \<and> apply_call demo2 2 1500 (Stake 7) = demo2 \<and>
   (\<exists>e. stake_call demo2 4 1500 7 = Inl e) \<and> apply_call demo2 4 1500 (Stake 7) = demo2 \<and>
   p1 (matches demo2 8) = 0 \<and>
   (\<exists>e. stake_call demo2 3 1500 8 = Inl e) \<and> apply_call demo2 3 1500 (Stake 8) = demo2"
  using stake_rejected [of demo2 2 7 1500] stake_rejected [of demo2 4 7 1500]
    stake_rejected [of demo2 3 8 1500] reachable_demo2
  by (simp add: demo2_match demo2_unknown zero_Match_def)

lemma exec_keeps_match:
  assumes "exec s sender now c = Inr s'" and "p1 (matches s i) \<noteq> 0"
  shows "p1 (matches s' i) = p1 (matches s i) \<and> p2 (matches s' i) = p2 (matches s i) \<and>
         stake (matches s' i) = stake (matches s i)"
proof (cases c)
  case (CreateMatch j a b k)
  with assms(1) have cm: "createMatch s sender j a b k = Inr s'" by simp
  from createMatch_Inr [OF cm] have fresh: "p1 (matches s j) = 0"
    and s': "matches s' = (matches s)(j :=
            \<lparr>p1 = a, p2 = b, stake = k, startTime = 0, status = PENDING,
             p1Staked = False, p2Staked = False\<rparr>)"
    by simp_all
  from fresh assms(2) have "j \<noteq> i" by auto
  then show ?thesis by (simp add: s')
next
  case (Stake j)
  with assms(1) have sc: "stake_call s sender now j = Inr s'" by simp
  from stake_call_Inr [OF sc] obtain token' m2 where
    s': "s' = s\<lparr>gameToken := token', matches := (matches s)(j := m2),
                     events := events s @ [Staked j sender]\<rparr>"
    and m2: "p1 m2 = p1 (matches s j)" "p2 m2 = p2 (matches s j)" "stake m2 = stake (matches s j)"
    by blast
  then show ?thesis by (simp add: s')
next
  case (CommitResult j w)
  with assms(1) have cr: "commitResult s sender j w = Inr s'" by simp
  from commitResult_Inr [OF cr] obtain payout token' where
    "s' = s\<lparr>gameToken := token', matches := (matches s)(j := (matches s j)\<lparr>status := SETTLED\<rparr>),
          events := events s @ [Settled j w payout]\<rparr>"
    by blast
  then show ?thesis by simp
next
  case (Refund j)
  with assms(1) have rf: "refund s sender now j = Inr s'" by simp
  from refund_Inr [OF rf] obtain token2 where
    "s' = s\<lparr>gameToken := token2, matches := (matches s)(j := (matches s j)\<lparr>status := REFUNDED\<rparr>),
          events := events s @
            [Refunded j (p1 (matches s j)) (p2 (matches s j)) (stake (matches s j))]\<rparr>"
    by blast
  then show ?thesis by simp
next
  case (SetBackendOperator a)
  with assms(1) show ?thesis
    using setBackendOperator_Inr [of s sender a s'] by simp
qed

lemma step_keeps_match:
  assumes "step s s'" and "p1 (matches s i) \<noteq> 0"
  shows "p1 (matches s' i) = p1 (matches s i) \<and> p2 (matches s' i) = p2 (matches s i) \<and>
         stake (matches s' i) = stake (matches s i)"
  using assms
proof (induction rule: step.induct)
  case (call sender s now c s')
  then show ?case using exec_keeps_match by blast
qed simp_all

lemma steps_keep_match:
  assumes "step\<^sup>*\<^sup>* s s'" and "p1 (matches s i) \<noteq> 0"
  shows "p1 (matches s' i) = p1 (matches s i) \<and> p2 (matches s' i) = p2 (matches s i) \<and>
         stake (matches s' i) = stake (matches s i)"
  using assms
proof (induction rule: rtranclp_induct)
  case base
  then show ?case by simp
next
  case (step y z)
  then show ?case using step_keeps_match [of y z i] by simp
qed

text \<open>
  Claim C7. Once \<open>createMatch\<close> has succeeded for an id, then after any further steps of
  the system every \<open>createMatch\<close> with that id is rejected, whoever calls and whatever the
  arguments; the rejected call changes nothing, and the match still has the players and the
  stake it was created with.
\<close>

theorem createMatch_twice_rejected:
  "createMatch s0 sender0 i a b k = Inr s1 \<and> step\<^sup>*\<^sup>* s1 s2 \<longrightarrow>
     (\<exists>e. createMatch s2 sender i a' b' k' = Inl e) \<and>
     apply_call s2 sender now (CreateMatch i a' b' k') = s2 \<and>
     p1 (matches s2 i) = a \<and> p2 (matches s2 i) = b \<and> stake (matches s2 i) = k"
proof
  assume h: "createMatch s0 sender0 i a b k = Inr s1 \<and> step\<^sup>*\<^sup>* s1 s2"
  then have cm: "createMatch s0 sender0 i a b k = Inr s1" and st: "step\<^sup>*\<^sup>* s1 s2"
    by simp_all
  from createMatch_Inr [OF cm] have a: "a \<noteq> 0"
    and m1: "p1 (matches s1 i) = a" "p2 (matches s1 i) = b" "stake (matches s1 i) = k"
    by simp_all
  from steps_keep_match [OF st, of i] a m1
  have m2: "p1 (matches s2 i) = a" "p2 (matches s2 i) = b" "stake (matches s2 i) = k"
    by simp_all
  have rej: "\<exists>e. createMatch s2 sender i a' b' k' = Inl e"
    using m2(1) a by (simp add: createMatch_def)
  then have "apply_call s2 sender now (CreateMatch i a' b' k') = s2"
    by (auto simp: apply_call_def)
  with rej m2 show "(\<exists>e. createMatch s2 sender i a' b' k' = Inl e) \<and>
     apply_call s2 sender now (CreateMatch i a' b' k') = s2 \<and>
     p1 (matches s2 i) = a \<and> p2 (matches s2 i) = b \<and> stake (matches s2 i) = k"
    by simp
qed

theorem createMatch_twice_rejected_witness:
  "createMatch demo0 1 7 2 3 5000000000000000000 = Inr demo1 \<and> step\<^sup>*\<^sup>* demo1 demo2 \<and>
   createMatch demo2 1 7 2 3 5000000000000000000 = Inl (Revert ''Match already exists'') \<and>
   (\<exists>e. createMatch demo2 1 7 4 5 1 = Inl e) \<and>
   apply_call demo2 1 1500 (CreateMatch 7 4 5 1) = demo2 \<and>
   p1 (matches demo2 7) = 2 \<and> p2 (matches demo2 7) = 3 \<and>
   stake (matches demo2 7) = 5000000000000000000"
proof -
  have c: "createMatch demo0 1 7 2 3 5000000000000000000 = Inr demo1"
    using demo1_eq by simp
  have "step demo1 demo2"
    by (rule step.call [OF _ _ demo2_exec]) (simp_all add: demo1_val demo0_def constructor_def)
  then have st: "step\<^sup>*\<^sup>* demo1 demo2" by (rule r_into_rtranclp)
  have "createMatch demo2 1 7 2 3 5000000000000000000 = Inl (Revert ''Match already exists'')"
    by (simp add: createMatch_def demo2_match demo2_fields)
  then show ?thesis
    using createMatch_twice_rejected [of demo0 1 7 2 3 5000000000000000000 demo1 demo2 1 4 5 1 1500]
      c st
    by simp
qed

text \<open>
  Claim C10. In every reachable state, a match that is STAKED, SETTLED or REFUNDED has both
  staked-flags set and a non-zero start time, and a PENDING match has start time zero. So
  \<open>refund\<close>, which requires STAKED, never finds a flag unset: the branches that skip a
  transfer are not taken. (Block timestamps are positive in \<open>step\<close>.)
\<close>

theorem flags_and_startTime:
  "reachable s \<longrightarrow>
     ((status (matches s i) = STAKED \<or> status (matches s i) = SETTLED \<or>
       status (matches s i) = REFUNDED)
      \<longrightarrow> p1Staked (matches s i) \<and> p2Staked (matches s i) \<and> startTime (matches s i) \<noteq> 0) \<and>
     (status (matches s i) = PENDING \<longrightarrow> startTime (matches s i) = 0) \<and>
     \<not> (status (matches s i) = STAKED \<and> (\<not> p1Staked (matches s i) \<or> \<not> p2Staked (matches s i)))"
proof
  assume "reachable s"
  then have "match_ok (self s) (matches s i)" using reachable_inv by (simp add: escrow_inv_def)
  then show "((status (matches s i) = STAKED \<or> status (matches s i) = SETTLED \<or>
       status (matches s i) = REFUNDED)
      \<longrightarrow> p1Staked (matches s i) \<and> p2Staked (matches s i) \<and> startTime (matches s i) \<noteq> 0) \<and>
     (status (matches s i) = PENDING \<longrightarrow> startTime (matches s i) = 0) \<and>
     \<not> (status (matches s i) = STAKED \<and> (\<not> p1Staked (matches s i) \<or> \<not> p2Staked (matches s i)))"
    unfolding match_ok_def by (cases "status (matches s i)") simp_all
qed

theorem flags_and_startTime_witness:
  "reachable demo3 \<and> status (matches demo3 7) = STAKED \<and>
   p1Staked (matches demo3 7) \<and> p2Staked (matches demo3 7) \<and> startTime (matches demo3 7) \<noteq> 0 \<and>
   reachable demo2 \<and> status (matches demo2 7) = PENDING \<and> startTime (matches demo2 7) = 0"
  using flags_and_startTime [of demo3 7] flags_and_startTime [of demo2 7]
    reachable_demo3 reachable_demo2
  by (simp add: demo3_match demo2_match)

text \<open>
  Claim C3, as stated, fails: after \<open>createMatch\<close> and the stake of the first player only,
  \<open>refund\<close> more than 24 hours and one second later is rejected with "Match not staked",
  and the player's 5 * 10^18 stay in the escrow.
\<close>

theorem refund_single_staker_counterexample:
  "exec demo0 1 1000 (CreateMatch 7 2 3 5000000000000000000) = Inr demo1 \<and>
   exec demo1 2 1000 (Stake 7) = Inr demo2 \<and>
   p1Staked (matches demo2 7) \<and> \<not> p2Staked (matches demo2 7) \<and>
   refund demo2 2 (1000 + 86401) 7 = Inl (Revert ''Match not staked'') \<and>
   apply_call demo2 2 (1000 + 86401) (Refund 7) = demo2 \<and>
   balances (gameToken demo2) 2 = 15000000000000000000 \<and>
   balances (gameToken demo2) 100 = 5000000000000000000"
  using demo1_eq demo2_exec
  by (simp add: refund_def apply_call_def demo2_match demo2_fields)

text \<open>
  Claim C3, amended. In a reachable state, a created match for which not both players have
  staked (exactly one of them, in particular) is PENDING, and \<open>refund\<close> for it is rejected
  with "Match not staked" at every time and for every caller, changing nothing: no stake is
  returned and the player who never staked receives nothing.
\<close>

theorem refund_needs_both_stakes:
  "reachable s \<and> p1 (matches s i) \<noteq> 0 \<and> \<not> (p1Staked (matches s i) \<and> p2Staked (matches s i)) \<longrightarrow>
     status (matches s i) = PENDING \<and>
     refund s sender now i = Inl (Revert ''Match not staked'') \<and>
     apply_call s sender now (Refund i) = s"
proof
  assume h: "reachable s \<and> p1 (matches s i) \<noteq> 0 \<and>
    \<not> (p1Staked (matches s i) \<and> p2Staked (matches s i))"
  then have "match_ok (self s) (matches s i)" using reachable_inv by (simp add: escrow_inv_def)
  with h have pend: "status (matches s i) = PENDING"
    unfolding match_ok_def by (cases "status (matches s i)") auto
  with h have rej: "refund s sender now i = Inl (Revert ''Match not staked'')"
    by (simp add: refund_def)
  then have "apply_call s sender now (Refund i) = s" by (simp add: apply_call_def)
  with pend rej show "status (matches s i) = PENDING \<and>
     refund s sender now i = Inl (Revert ''Match not staked'') \<and>
     apply_call s sender now (Refund i) = s"
    by simp
qed

theorem refund_needs_both_stakes_witness:
  "reachable demo2 \<and> p1 (matches demo2 7) \<noteq> 0 \<and>
   p1Staked (matches demo2 7) \<and> \<not> p2Staked (matches demo2 7) \<and>
   status (matches demo2 7) = PENDING \<and>
   refund demo2 3 87401 7 = Inl (Revert ''Match not staked'') \<and>
   apply_call demo2 3 87401 (Refund 7) = demo2"
  using refund_needs_both_stakes [of demo2 7 3 87401] reachable_demo2
  by (simp add: demo2_match)

section \<open>The claim about TokenStore\<close>

lemma buy_Inr:
  assumes "buy t sender a = Inr t'"
  shows "bought t sender a t'"
proof -
  have g1: "a \<noteq> 0"
    by (rule ccontr) (use assms in \<open>simp add: buy_def\<close>)
  then have pos: "a > 0" by (simp add: word_greater_zero_iff)
  from assms pos obtain product where
    pr: "checked_mul a (gtPerUsdt t) = Some product"
    by (cases "checked_mul a (gtPerUsdt t)") (auto simp: buy_def)
  let ?out = "product div 1000000"
  have g2: "?out > 0"
    by (rule ccontr) (use assms pos pr in \<open>simp add: buy_def Let_def\<close>)
  from assms pos pr g2 obtain usdt' where
    tf: "transferFrom (usdt t) (ts_self t) sender (ts_self t) a = Some usdt'"
    by (cases "transferFrom (usdt t) (ts_self t) sender (ts_self t) a")
       (auto simp: buy_def Let_def)
  from assms pos pr g2 tf obtain gameToken' where
    mt: "mint (ts_gameToken t) (ts_self t) sender ?out = Some gameToken'"
    by (cases "mint (ts_gameToken t) (ts_self t) sender ?out") (auto simp: buy_def Let_def)
  have t': "t' = t\<lparr>usdt := usdt', ts_gameToken := gameToken',
                   ts_events := ts_events t @ [Purchase sender a ?out]\<rparr>"
    using assms pos pr g2 tf mt by (simp add: buy_def Let_def)
  have u: "unat ?out = unat a * unat (gtPerUsdt t) div 10 ^ 6"
    using checked_mul_Some [OF pr] by (simp add: unat_div)
  have b: "balances gameToken' sender = balances (ts_gameToken t) sender + unat ?out"
    using mt by (auto simp: mint_def split: if_splits)
  have nz: "?out \<noteq> 0" using g2 by (simp add: word_greater_zero_iff)
  show ?thesis
    unfolding bought_def
    using g1 nz u tf mt b by (intro exI [of _ ?out]) (simp add: t')
qed

text \<open>
  Claim C5. \<open>buy\<close> rejects the amount zero (a \<open>uint256\<close> is never negative) and every
  amount whose conversion \<open>amount * rate div 10^6\<close> is zero. A call that is accepted has
  pulled \<open>amount\<close> of the external token from the caller through the allowance and minted to
  the caller exactly \<open>amount * rate div 10^6\<close>, the product taken without wrap-around (a
  product beyond \<open>uint256\<close> panics); when the pull fails the call is rejected, and a
  rejected call changes nothing, so nothing is minted without the pull.
\<close>

theorem buy_converts_after_pull:
  "(a = 0 \<longrightarrow> buy t sender a = Inl (Revert ''Amount must be greater than 0'')) \<and>
   (unat a * unat (gtPerUsdt t) div 10 ^ 6 = 0 \<longrightarrow> (\<exists>e. buy t sender a = Inl e)) \<and>
   (transferFrom (usdt t) (ts_self t) sender (ts_self t) a = None \<longrightarrow>
      (\<exists>e. buy t sender a = Inl e)) \<and>
   (buy t sender a = Inr t' \<longrightarrow> bought t sender a t') \<and>
   ((\<exists>e. buy t sender a = Inl e) \<longrightarrow> apply_buy t sender a = t)"
proof (intro conjI impI)
  assume "a = 0"
  then show "buy t sender a = Inl (Revert ''Amount must be greater than 0'')"
    by (simp add: buy_def)
next
  assume z: "unat a * unat (gtPerUsdt t) div 10 ^ 6 = 0"
  show "\<exists>e. buy t sender a = Inl e"
  proof (cases "buy t sender a")
    case (Inl e)
    then show ?thesis by blast
  next
    case (Inr t')
    from buy_Inr [OF Inr] z have False
      unfolding bought_def by (auto simp: unat_eq_0)
    then show ?thesis ..
  qed
next
  assume n: "transferFrom (usdt t) (ts_self t) sender (ts_self t) a = None"
  show "\<exists>e. buy t sender a = Inl e"
  proof (cases "buy t sender a")
    case (Inl e)
    then show ?thesis by blast
  next
    case (Inr t')
    from buy_Inr [OF Inr] n have False
      unfolding bought_def by auto
    then show ?thesis ..
  qed
next
  assume "buy t sender a = Inr t'"
  then show "bought t sender a t'" by (rule buy_Inr)
next
  assume "\<exists>e. buy t sender a = Inl e"
  then show "apply_buy t sender a = t" by (auto simp: apply_buy_def)
qed

lemma demo_buy:
  "buy demo_store 2 10000000 =
     Inr (demo_store\<lparr>
       usdt := \<lparr>balances = (\<lambda>_. 0)(2 := 90000000, 50 := 10000000),
                allowances = (\<lambda>_ _. 0)(2 := (\<lambda>_. 0)(50 := 0)),
                totalSupply = 100000000, minter = 1\<rparr>,
       ts_gameToken := \<lparr>balances = (\<lambda>_. 0)(2 := 10000000000000000000),
                allowances = (\<lambda>_ _. 0), totalSupply = 10000000000000000000, minter = 50\<rparr>,
       ts_events := [Purchase 2 10000000 10000000000000000000]\<rparr>)"
  by (simp add: buy_def demo_store_def checked_mul_def transferFrom_def move_def mint_def Let_def)

theorem buy_converts_after_pull_witness:
  "buy demo_store 2 0 = Inl (Revert ''Amount must be greater than 0'') \<and>
   (\<exists>e. buy demo_store 2 20000000 = Inl e) \<and> apply_buy demo_store 2 20000000 = demo_store \<and>
   (\<exists>e. buy (demo_store\<lparr>gtPerUsdt := 1\<rparr>) 2 999999 = Inl e) \<and>
   (\<exists>t'. buy demo_store 2 10000000 = Inr t' \<and> bought demo_store 2 10000000 t' \<and>
      balances (ts_gameToken t') 2 = 10000000000000000000)"
proof -
  have 1: "transferFrom (usdt demo_store) (ts_self demo_store) 2 (ts_self demo_store) 20000000 = None"
    by (simp add: demo_store_def transferFrom_def)
  have 2: "unat (999999 :: uint256) * unat (gtPerUsdt (demo_store\<lparr>gtPerUsdt := 1\<rparr>)) div 10 ^ 6 = 0"
    by simp
  show ?thesis
    using buy_converts_after_pull [of 0 demo_store 2]
      buy_converts_after_pull [of 20000000 demo_store 2] 1
      buy_converts_after_pull [of 999999 "demo_store\<lparr>gtPerUsdt := 1\<rparr>" 2] 2
      buy_converts_after_pull [of 10000000 demo_store 2] demo_buy
    by simp
qed

section \<open>Rounding is idempotent\<close>

lemma pow2_pos: "0 < pow2 k"
  by (simp add: pow2_def)

lemma pow2_add: "pow2 (a + b) = pow2 a * pow2 b"
  by (simp add: pow2_def power_int_add)

lemma pow2_mono: "a \<le> b \<Longrightarrow> pow2 a \<le> pow2 b"
  by (simp add: pow2_def power_int_increasing)

lemma pow2_strict_mono: "a < b \<Longrightarrow> pow2 a < pow2 b"
  by (simp add: pow2_def power_int_strict_increasing)

lemma pow2_nat: "0 \<le> k \<Longrightarrow> pow2 k = 2 ^ nat k"
  by (simp add: pow2_def power_int_def)

lemma pow2_neg: "0 \<le> k \<Longrightarrow> pow2 (- k) = 1 / 2 ^ nat k"
  by (cases "k = 0") (simp_all add: pow2_def power_int_def field_simps)

lemma ilog2_bounds:
  assumes "0 < x"
  shows "pow2 (ilog2 x) \<le> x" "x < pow2 (ilog2 x + 1)"
proof -
  have "pow2 (ilog2 x) \<le> x \<and> x < pow2 (ilog2 x + 1)"
  proof (cases "1 \<le> x")
    case True
    define n where "n = \<lfloor>x\<rfloor>"
    have n1: "1 \<le> n" using True by (simp add: n_def)
    then have b1: "1 \<le> bitlen n" using bitlen_bounds [of n] bitlen_nonneg [of n]
      by (smt (verit) bitlen_eq_zero_iff)
    have bb: "2 ^ nat (bitlen n - 1) \<le> n" "n < 2 ^ nat (bitlen n)"
      using bitlen_bounds [of n] n1 by simp_all
    have il: "ilog2 x = bitlen n - 1" using True by (simp add: ilog2_def n_def)
    have "(2::rat) ^ nat (bitlen n - 1) \<le> of_int n"
      using bb(1) by (metis of_int_le_iff of_int_numeral of_int_power)
    also have "\<dots> \<le> x" by (simp add: n_def)
    finally have lo: "pow2 (ilog2 x) \<le> x" using b1 by (simp add: il pow2_nat)
    have "n + 1 \<le> 2 ^ nat (bitlen n)" using bb(2) by simp
    then have "(of_int (n + 1) :: rat) \<le> 2 ^ nat (bitlen n)"
      by (metis of_int_le_iff of_int_numeral of_int_power)
    moreover have "x < of_int (n + 1)" using floor_correct [of x] by (simp add: n_def)
    ultimately have "x < 2 ^ nat (bitlen n)" by (rule less_le_trans [rotated])
    then have hi: "x < pow2 (ilog2 x + 1)" using b1 by (simp add: il pow2_nat)
    from lo hi show ?thesis by simp
  next
    case False
    define m where "m = \<lceil>1 / x\<rceil> - 1"
    have inv1: "1 < 1 / x" using False assms by simp
    then have m1: "1 \<le> m" unfolding m_def by (smt (verit) less_ceiling_iff of_int_1)
    then have b1: "1 \<le> bitlen m" using bitlen_nonneg [of m]
      by (smt (verit) bitlen_eq_zero_iff)
    have bb: "2 ^ nat (bitlen m - 1) \<le> m" "m < 2 ^ nat (bitlen m)"
      using bitlen_bounds [of m] m1 by simp_all
    have il: "ilog2 x = - bitlen m" using False by (simp add: ilog2_def m_def)
    have "m + 1 \<le> 2 ^ nat (bitlen m)" using bb(2) by simp
    then have "(of_int (m + 1) :: rat) \<le> 2 ^ nat (bitlen m)"
      by (metis of_int_le_iff of_int_numeral of_int_power)
    moreover have "1 / x \<le> of_int (m + 1)" by (simp add: m_def)
    ultimately have "1 / x \<le> 2 ^ nat (bitlen m)" by (rule order_trans [rotated])
    then have "1 / 2 ^ nat (bitlen m) \<le> x"
      using assms by (simp add: field_simps)
    then have lo: "pow2 (ilog2 x) \<le> x" using b1 by (simp add: il pow2_neg)
    have "(2::rat) ^ nat (bitlen m - 1) \<le> of_int m"
      using bb(1) by (metis of_int_le_iff of_int_numeral of_int_power)
    moreover have "of_int m < 1 / x" unfolding m_def
      by (metis less_ceiling_iff order_refl zle_diff1_eq)
    ultimately have "2 ^ nat (bitlen m - 1) < 1 / x" by (rule le_less_trans)
    then have "x < 1 / 2 ^ nat (bitlen m - 1)"
      using assms by (simp add: field_simps)
    moreover have "pow2 (ilog2 x + 1) = 1 / 2 ^ nat (bitlen m - 1)"
      using pow2_neg [of "bitlen m - 1"] b1 by (simp add: il)
    ultimately have hi: "x < pow2 (ilog2 x + 1)" by simp
    from lo hi show ?thesis by simp
  qed
  then show "pow2 (ilog2 x) \<le> x" "x < pow2 (ilog2 x + 1)" by simp_all
qed

lemma ilog2_unique:
  assumes "0 < x" and "pow2 e \<le> x" and "x < pow2 (e + 1)"
  shows "ilog2 x = e"
proof (rule ccontr)
  assume ne: "ilog2 x \<noteq> e"
  note b = ilog2_bounds [OF assms(1)]
  show False
  proof (cases "ilog2 x < e")
    case True
    then have "pow2 (ilog2 x + 1) \<le> pow2 e" by (simp add: pow2_mono)
    with b(2) assms(2) show False by simp
  next
    case False
    with ne have "e + 1 \<le> ilog2 x" by simp
    then have "pow2 (e + 1) \<le> pow2 (ilog2 x)" by (simp add: pow2_mono)
    with b(1) assms(3) show False by simp
  qed
qed

lemma round_half_even_int: "round_half_even (of_int n) = n"
  by (simp add: round_half_even_def)

lemma round_half_even_ge:
  assumes "of_int a \<le> r"
  shows "a \<le> round_half_even r"
proof -
  from assms have "a \<le> \<lfloor>r\<rfloor>" by (simp add: le_floor_iff)
  then show ?thesis by (simp add: round_half_even_def Let_def)
qed

lemma round_half_even_le:
  assumes "r \<le> of_int b"
  shows "round_half_even r \<le> b"
proof (cases "r = of_int b")
  case True
  then show ?thesis by (simp add: round_half_even_int)
next
  case False
  with assms have "r < of_int b" by simp
  then have "\<lfloor>r\<rfloor> < b" by (simp add: floor_less_iff)
  then show ?thesis by (auto simp: round_half_even_def Let_def)
qed

lemma rnd_exact:
  assumes "0 < y" and "y < pow2 1024"
    and "\<exists>n. y = of_int n * pow2 (max (ilog2 y) (- 1022) - 52)"
  shows "rnd y = Fin y"
proof -
  define q where "q = pow2 (max (ilog2 y) (- 1022) - 52)"
  from assms(3) obtain n where n: "y = of_int n * q" by (auto simp: q_def)
  have qpos: "0 < q" by (simp add: q_def pow2_pos)
  then have "y / q = of_int n" using n by simp
  then have "of_int (round_half_even (y / q)) * q = y"
    using n by (simp add: round_half_even_int)
  then show ?thesis
    using assms(1,2) by (simp add: rnd_def Let_def q_def [symmetric])
qed

lemma pow2_split52: "pow2 k = of_int (2 ^ 52) * pow2 (k - 52)"
proof -
  have "pow2 52 = of_int (2 ^ 52)" by (simp add: pow2_def)
  moreover have "52 + (k - 52) = k" by simp
  ultimately show ?thesis using pow2_add [of 52 "k - 52"] by (simp only:)
qed

lemma rnd_idem:
  assumes "rnd x = Fin y"
  shows "rnd y = Fin y"
proof (cases "0 < y")
  case False
  have "0 \<le> y"
  proof (cases "x \<le> 0")
    case True
    with assms show ?thesis by (simp add: rnd_def)
  next
    case xpos: False
    define e where "e = max (ilog2 x) (- 1022)"
    define q where "q = pow2 (e - 52)"
    have "0 \<le> x / q" using xpos by (simp add: q_def pow2_pos less_imp_le)
    then have "0 \<le> round_half_even (x / q)" using round_half_even_ge [of 0 "x / q"] by simp
    moreover have "y = of_int (round_half_even (x / q)) * q"
      using assms xpos by (simp add: rnd_def Let_def e_def q_def split: if_splits)
    ultimately show ?thesis by (simp add: q_def pow2_pos less_imp_le)
  qed
  with False have "y = 0" by simp
  then show ?thesis by (simp add: rnd_def)
next
  case ypos: True
  have xpos: "0 < x"
  proof (rule ccontr)
    assume "\<not> 0 < x"
    with assms have "y = 0" by (simp add: rnd_def)
    with ypos show False by simp
  qed
  define ex where "ex = ilog2 x"
  define e where "e = max ex (- 1022)"
  define q where "q = pow2 (e - 52)"
  define n where "n = round_half_even (x / q)"
  have qpos: "0 < q" by (simp add: q_def pow2_pos)
  from assms xpos have y: "y = of_int n * q" and fin: "y < pow2 1024"
    by (simp_all add: rnd_def Let_def ex_def e_def q_def n_def split: if_splits)
  note xb = ilog2_bounds [OF xpos, folded ex_def]
  have q52: "pow2 52 * q = pow2 e"
    using pow2_add [of 52 "e - 52"] by (simp add: q_def)
  have "53 + (e - 52) = e + 1" by simp
  then have q53: "pow2 53 * q = pow2 (e + 1)"
    using pow2_add [of 53 "e - 52"] by (simp only: q_def)
  have p52: "pow2 52 = of_int (2 ^ 52)" and p53: "pow2 53 = of_int (2 ^ 53)"
    by (simp_all add: pow2_def)
  have up: "x < pow2 (e + 1)"
    using xb(2) pow2_mono [of "ex + 1" "e + 1"] by (simp add: e_def)
  then have "x / q < pow2 53" using qpos q53 by (simp add: field_simps)
  then have n_le: "n \<le> 2 ^ 53"
    unfolding n_def p53 by (intro round_half_even_le) simp
  then have y_le: "y \<le> pow2 (e + 1)"
  proof -
    have "of_int n * q \<le> of_int (2 ^ 53) * q"
      using n_le qpos by (intro mult_right_mono) (simp_all del: of_int_power of_int_numeral)
    then show ?thesis using q53 p53 y by simp
  qed
  show ?thesis
  proof (cases "- 1022 \<le> ex")
    case True
    then have ee: "e = ex" by (simp add: e_def)
    have "pow2 52 \<le> x / q" using xb(1) qpos q52 ee by (simp add: field_simps)
    then have n_ge: "2 ^ 52 \<le> n"
      unfolding n_def p52 by (intro round_half_even_ge) simp
    have y_ge: "pow2 e \<le> y"
    proof -
      have "of_int (2 ^ 52) * q \<le> of_int n * q"
        using n_ge qpos by (intro mult_right_mono) (simp_all del: of_int_power of_int_numeral)
      then show ?thesis using q52 p52 y by simp
    qed
    show ?thesis
    proof (cases "y = pow2 (e + 1)")
      case top: True
      have "ilog2 y = e + 1"
      proof (rule ilog2_unique [OF ypos])
        show "pow2 (e + 1) \<le> y" using top by simp
        show "y < pow2 (e + 1 + 1)" unfolding top by (rule pow2_strict_mono) simp
      qed
      then have m: "max (ilog2 y) (- 1022) = e + 1" using True ee by simp
      have "y = of_int (2 ^ 52) * pow2 (e + 1 - 52)"
        unfolding top by (rule pow2_split52)
      then show ?thesis
        using rnd_exact [OF ypos fin] m by metis
    next
      case below: False
      with y_le have "y < pow2 (e + 1)" by simp
      then have "ilog2 y = e" using ilog2_unique [OF ypos y_ge] by simp
      then have m: "max (ilog2 y) (- 1022) = e" using True ee by simp
      show ?thesis
        using rnd_exact [OF ypos fin] m y q_def by metis
    qed
  next
    case False
    then have ee: "e = - 1022" by (simp add: e_def)
    have "ilog2 y \<le> - 1022"
    proof (rule ccontr)
      assume "\<not> ilog2 y \<le> - 1022"
      then have "- 1021 \<le> ilog2 y" by simp
      then have "pow2 (- 1021) \<le> pow2 (ilog2 y)" by (rule pow2_mono)
      also have "\<dots> \<le> y" using ilog2_bounds(1) [OF ypos] .
      finally have "pow2 (- 1021) \<le> y" .
      moreover have "x < pow2 (- 1022)"
        using xb(2) pow2_mono [of "ex + 1" "- 1022"] False by simp
      then have "x / q < pow2 52" using qpos q52 ee by (simp add: field_simps)
      then have "n \<le> 2 ^ 52"
        unfolding n_def p52 by (intro round_half_even_le) simp
      then have "of_int n * q \<le> of_int (2 ^ 52) * q"
        using qpos by (intro mult_right_mono) (simp_all del: of_int_power of_int_numeral)
      then have "y \<le> pow2 (- 1022)" using q52 p52 y ee by simp
      ultimately show False using pow2_strict_mono [of "- 1022" "- 1021"] by simp
    qed
    then have m: "max (ilog2 y) (- 1022) = e" using ee by simp
    show ?thesis
      using rnd_exact [OF ypos fin] m y q_def by metis
  qed
qed

lemma fadd_zero_parse:
  "fadd (Fin 0) (parseFloat_formatUnits18 amount) = parseFloat_formatUnits18 amount"
proof (cases "parseFloat_formatUnits18 amount")
  case (Fin y)
  then have "rnd y = Fin y" unfolding parseFloat_formatUnits18_def by (rule rnd_idem)
  with Fin show ?thesis by simp
next
  case Infinity
  then show ?thesis by simp
qed

section \<open>The leaderboard tally\<close>

lemma no_matches_function: "\<not> has_function PLAY_GAME_ABI ''matches''"
  by (simp add: has_function_def PLAY_GAME_ABI_def)

lemma map_of_map_set: "map_of (map_set data k v) = (map_of data)(k \<mapsto> v)"
  by (induction data) (auto simp: fun_upd_twist)

lemma keys_map_set:
  "map fst (map_set data k v) = (if k \<in> set (map fst data) then map fst data else map fst data @ [k])"
  by (induction data) force+

lemma distinct_map_set: "distinct (map fst data) \<Longrightarrow> distinct (map fst (map_set data k v))"
  by (simp add: keys_map_set)

lemma won_append: "won a (evs @ [e]) = won a evs @ (case payout_of a e of None \<Rightarrow> [] | Some x \<Rightarrow> [x])"
  by (simp add: won_def List.map_filter_def split: option.splits)

lemma fsum_snoc: "fsum (xs @ [x]) = fadd (fsum xs) x"
  by (simp add: fsum_def)

lemma tally_ok_set:
  assumes "tally_ok data evs" and "entry_ok evs k v"
  shows "tally_ok (map_set data k v) evs"
  using assms unfolding tally_ok_def
  by (auto simp: map_of_map_set distinct_map_set split: option.splits)

lemma tally_ok_lookup:
  assumes "tally_ok data evs"
  shows "map_of data a = Some st \<Longrightarrow> entry_ok evs a st"
    "map_of data a = None \<Longrightarrow> won a evs = []"
  using assms unfolding tally_ok_def by (auto split: option.splits dest: spec [of _ a])

lemma entry_ok_zero: "won a evs = [] \<Longrightarrow> entry_ok evs a zero_stats"
  by (simp add: entry_ok_def zero_stats_def fsum_def)

lemma entry_ok_played:
  "entry_ok evs a st \<Longrightarrow> entry_ok evs a (st\<lparr>matchesPlayed := matchesPlayed st + 1\<rparr>)"
  by (simp add: entry_ok_def)

lemma tally_ok_ensure:
  assumes "tally_ok data evs"
  shows "tally_ok (if \<not> map_has data a then map_set data a zero_stats else data) evs"
proof (cases "map_has data a")
  case True
  then show ?thesis using assms by simp
next
  case False
  then have "map_of data a = None" by (simp add: map_has_def)
  then have "entry_ok evs a zero_stats"
    using tally_ok_lookup(2) [OF assms] entry_ok_zero by blast
  then show ?thesis using False tally_ok_set [OF assms] by simp
qed

lemma tally_ok_bump:
  assumes "tally_ok data evs"
  shows "tally_ok (case map_get data a of
                     Some stats \<Rightarrow> map_set data a (stats\<lparr>matchesPlayed := matchesPlayed stats + 1\<rparr>)
                   | None \<Rightarrow> data) evs"
proof (cases "map_of data a")
  case None
  then show ?thesis using assms by (simp add: map_get_def)
next
  case (Some st)
  then have "entry_ok evs a (st\<lparr>matchesPlayed := matchesPlayed st + 1\<rparr>)"
    using tally_ok_lookup(1) [OF assms] entry_ok_played by blast
  then show ?thesis using Some tally_ok_set [OF assms] by (simp add: map_get_def)
qed

lemma tally_ok_quiet:
  assumes "tally_ok data evs" and "\<forall>a. payout_of a e = None"
  shows "tally_ok data (evs @ [e])"
proof -
  have same: "won a (evs @ [e]) = won a evs" for a
    using assms(2) by (simp add: won_append)
  have "case map_of data a of None \<Rightarrow> won a (evs @ [e]) = []
        | Some st \<Rightarrow> entry_ok (evs @ [e]) a st" for a
  proof (cases "map_of data a")
    case None
    then show ?thesis using tally_ok_lookup(2) [OF assms(1)] same by simp
  next
    case (Some st)
    then show ?thesis using tally_ok_lookup(1) [OF assms(1) Some] same
      by (simp add: entry_ok_def)
  qed
  then show ?thesis using assms(1) by (simp add: tally_ok_def)
qed

lemma tally_ok_updateLoserStats:
  assumes "tally_ok data evs"
  shows "tally_ok (updateLoserStats chain data matchId winner) evs"
proof (cases "contract_matches chain matchId")
  case None
  then show ?thesis using assms by (simp add: updateLoserStats_def)
next
  case (Some match)
  let ?loser = "if p1 match = winner then p2 match else p1 match"
  show ?thesis
  proof (cases "map_of data ?loser")
    case None
    then have "won ?loser evs = []" using tally_ok_lookup(2) [OF assms] by blast
    then have "entry_ok evs ?loser \<lparr>wins = 0, totalGTWon = Fin 0, matchesPlayed = 1\<rparr>"
      by (simp add: entry_ok_def fsum_def)
    then show ?thesis
      using Some None tally_ok_set [OF assms]
      by (simp add: updateLoserStats_def map_get_def Let_def)
  next
    case (Some st)
    then have "entry_ok evs ?loser (st\<lparr>matchesPlayed := matchesPlayed st + 1\<rparr>)"
      using tally_ok_lookup(1) [OF assms] entry_ok_played by blast
    then show ?thesis
      using \<open>contract_matches chain matchId = Some match\<close> Some tally_ok_set [OF assms]
      by (simp add: updateLoserStats_def map_get_def Let_def)
  qed
qed

lemma tally_ok_on_Settled:
  assumes "tally_ok data evs"
  shows "tally_ok (on_Settled chain data matchId winner amount)
           (evs @ [Settled matchId winner amount])"
proof -
  let ?e = "Settled matchId winner amount"
  let ?x = "parseFloat_formatUnits18 amount"
  define v where "v =
    (case map_of data winner of
       Some stats \<Rightarrow> stats\<lparr>wins := wins stats + 1,
                          totalGTWon := fadd (totalGTWon stats) ?x,
                          matchesPlayed := matchesPlayed stats + 1\<rparr>
     | None \<Rightarrow> \<lparr>wins = 1, totalGTWon = ?x, matchesPlayed = 1\<rparr>)"
  have data1: "on_Settled chain data matchId winner amount =
               updateLoserStats chain (map_set data winner v) matchId winner"
    by (simp add: on_Settled_def map_get_def v_def Let_def split: option.splits)
  have w: "won winner (evs @ [?e]) = won winner evs @ [?x]"
    by (simp add: won_append)
  have others: "a \<noteq> winner \<Longrightarrow> won a (evs @ [?e]) = won a evs" for a
    by (simp add: won_append)
  have vok: "entry_ok (evs @ [?e]) winner v"
  proof (cases "map_of data winner")
    case None
    then have "won winner evs = []" using tally_ok_lookup(2) [OF assms] by blast
    then show ?thesis
      using None by (simp add: v_def entry_ok_def w fsum_def fadd_zero_parse)
  next
    case (Some st)
    then have "entry_ok evs winner st" using tally_ok_lookup(1) [OF assms] by blast
    then show ?thesis
      using Some by (simp add: v_def entry_ok_def w fsum_snoc)
  qed
  have "case map_of (map_set data winner v) a of None \<Rightarrow> won a (evs @ [?e]) = []
        | Some st \<Rightarrow> entry_ok (evs @ [?e]) a st" for a
  proof (cases "a = winner")
    case True
    then show ?thesis using vok by (simp add: map_of_map_set)
  next
    case False
    show ?thesis
    proof (cases "map_of data a")
      case None
      then show ?thesis
        using False tally_ok_lookup(2) [OF assms None] others by (simp add: map_of_map_set)
    next
      case (Some st)
      then show ?thesis
        using False tally_ok_lookup(1) [OF assms Some] others
        by (simp add: map_of_map_set entry_ok_def)
    qed
  qed
  moreover have "distinct (map fst (map_set data winner v))"
    using assms by (simp add: tally_ok_def distinct_map_set)
  ultimately have "tally_ok (map_set data winner v) (evs @ [?e])"
    by (simp add: tally_ok_def)
  then show ?thesis unfolding data1 by (rule tally_ok_updateLoserStats)
qed

lemma tally_ok_handle:
  assumes "tally_ok data evs"
  shows "tally_ok (handle chain data e) (evs @ [e])"
proof (cases e)
  case (MatchCreated i a b k)
  have q: "tally_ok data (evs @ [e])"
    using tally_ok_quiet [OF assms, of e] MatchCreated by simp
  show ?thesis
    using tally_ok_ensure [OF tally_ok_ensure [OF q, of a], of b] MatchCreated
    by (simp add: on_MatchCreated_def Let_def)
next
  case (Staked i a)
  then show ?thesis using tally_ok_quiet [OF assms, of e] by simp
next
  case (Settled i w amt)
  then show ?thesis using tally_ok_on_Settled [OF assms] by simp
next
  case (Refunded i a b amt)
  have q: "tally_ok data (evs @ [e])"
    using tally_ok_quiet [OF assms, of e] Refunded by simp
  show ?thesis
    using tally_ok_bump [OF tally_ok_bump [OF q, of a], of b] Refunded
    by (simp add: on_Refunded_def Let_def)
next
  case (Purchase a u g)
  have q: "tally_ok data (evs @ [e])"
    using tally_ok_quiet [OF assms, of e] Purchase by simp
  show ?thesis
    using tally_ok_ensure [OF q, of a] Purchase by (simp add: on_Purchase_def)
qed

lemma tally_ok_aggregate: "tally_ok (aggregate chain evs) evs"
proof (induction evs rule: rev_induct)
  case Nil
  then show ?case by (simp add: aggregate_def tally_ok_def won_def List.map_filter_def)
next
  case (snoc e evs)
  then show ?case using tally_ok_handle [of "aggregate chain evs" evs chain e]
    by (simp add: aggregate_def)
qed

lemma foldl_count:
  "foldl (\<lambda>acc st. acc + f st) n xs = n + sum_list (map f xs)" for f :: "stats \<Rightarrow> nat"
  by (induction xs arbitrary: n) simp_all

lemma tally_ok_entries:
  assumes "tally_ok data evs" and "(a, st) \<in> set data"
  shows "entry_ok evs a st"
proof -
  from assms have "map_of data a = Some st" by (simp add: tally_ok_def)
  then show ?thesis using tally_ok_lookup(1) [OF assms(1)] by blast
qed

lemma stats_of_tally:
  assumes "tally_ok data evs"
  shows "totalWins (get_stats data) \<le> totalMatches (get_stats data)"
    and "totalGTWon_out (get_stats data) = toFixed2 (fsum (map (\<lambda>a. fsum (won a evs)) (map fst data)))"
proof -
  have "wins st \<le> matchesPlayed st" if "st \<in> set (map snd data)" for st
    using that tally_ok_entries [OF assms] by (auto simp: entry_ok_def)
  then have "sum_list (map wins (map snd data)) \<le> sum_list (map matchesPlayed (map snd data))"
    by (intro sum_list_mono) simp
  then show "totalWins (get_stats data) \<le> totalMatches (get_stats data)"
    by (simp add: get_stats_def Let_def foldl_count)
  have meq: "map (\<lambda>p. totalGTWon (snd p)) data = map (\<lambda>p. fsum (won (fst p) evs)) data"
    by (rule map_cong) (use tally_ok_entries [OF assms] in \<open>auto simp: entry_ok_def\<close>)
  have "foldl (\<lambda>acc st. fadd acc (totalGTWon st)) (Fin 0) (map snd data) =
        foldl fadd (Fin 0) (map (\<lambda>p. totalGTWon (snd p)) data)"
    by (simp add: foldl_map)
  also have "\<dots> = foldl fadd (Fin 0) (map (\<lambda>p. fsum (won (fst p) evs)) data)"
    by (simp only: meq)
  also have "\<dots> = fsum (map (\<lambda>a. fsum (won a evs)) (map fst data))"
    by (simp add: fsum_def foldl_map)
  finally have "foldl (\<lambda>acc st. fadd acc (totalGTWon st)) (Fin 0) (map snd data) =
        fsum (map (\<lambda>a. fsum (won a evs)) (map fst data))" .
  then show "totalGTWon_out (get_stats data) = toFixed2 (fsum (map (\<lambda>a. fsum (won a evs)) (map fst data)))"
    by (simp add: get_stats_def Let_def)
qed

section \<open>The claims about the leaderboard\<close>

text \<open>
  Claim C8, evaluated on the code. \<open>PLAY_GAME_ABI\<close> of the leaderboard declares the four
  events and no function, so the read \<open>playGameContract.matches(matchId)\<close> throws, the
  \<open>catch\<close> swallows the exception, and \<open>updateLoserStats\<close> never changes the table. After
  a match between players 2 and 3 that player 2 wins, with the match readable on the chain,
  the winner's record is updated and the loser's \<open>matchesPlayed\<close> is still 0. The
  \<open>Settled\<close> listener as a whole is the update of the winner's record alone: one more win,
  one more match, and the payout added to \<open>totalGTWon\<close>.
\<close>

theorem updateLoserStats_never_updates:
  "updateLoserStats chain data matchId winner = data \<and>
   on_Settled chain data matchId winner amount =
     map_set data winner
       (case map_get data winner of
          Some stats \<Rightarrow>
            stats\<lparr>wins := wins stats + 1,
                  totalGTWon := fadd (totalGTWon stats) (parseFloat_formatUnits18 amount),
                  matchesPlayed := matchesPlayed stats + 1\<rparr>
        | None \<Rightarrow> \<lparr>wins = 1, totalGTWon = parseFloat_formatUnits18 amount, matchesPlayed = 1\<rparr>) \<and>
   demo_chain 7 = Some \<lparr>p1 = 2, p2 = 3, stake = 5000000000000000000, startTime = 2000,
                        status = SETTLED, p1Staked = True, p2Staked = True\<rparr> \<and>
   map_get (aggregate demo_chain demo_events) 2 =
     Some \<lparr>wins = 1, totalGTWon = parseFloat_formatUnits18 10000000000000000000, matchesPlayed = 1\<rparr> \<and>
   map_get (aggregate demo_chain demo_events) 3 =
     Some \<lparr>wins = 0, totalGTWon = Fin 0, matchesPlayed = 0\<rparr>"
proof -
  have u: "updateLoserStats chain data matchId winner = data" for chain data matchId winner
    by (simp add: updateLoserStats_def contract_matches_def no_matches_function)
  have a: "aggregate demo_chain demo_events =
      [(2, \<lparr>wins = 1, totalGTWon = fadd (Fin 0) (parseFloat_formatUnits18 10000000000000000000),
            matchesPlayed = 1\<rparr>),
       (3, \<lparr>wins = 0, totalGTWon = Fin 0, matchesPlayed = 0\<rparr>)]"
    by (simp add: aggregate_def demo_events_def on_MatchCreated_def on_Settled_def u
        map_has_def map_get_def zero_stats_def Let_def)
  have w: "on_Settled chain data matchId winner amount =
     map_set data winner
       (case map_get data winner of
          Some stats \<Rightarrow>
            stats\<lparr>wins := wins stats + 1,
                  totalGTWon := fadd (totalGTWon stats) (parseFloat_formatUnits18 amount),
                  matchesPlayed := matchesPlayed stats + 1\<rparr>
        | None \<Rightarrow> \<lparr>wins = 1, totalGTWon = parseFloat_formatUnits18 amount, matchesPlayed = 1\<rparr>)"
    by (simp add: on_Settled_def u Let_def split: option.splits)
  have d: "demo_chain 7 = Some \<lparr>p1 = 2, p2 = 3, stake = 5000000000000000000, startTime = 2000,
                        status = SETTLED, p1Staked = True, p2Staked = True\<rparr>"
    by (simp add: demo_chain_def)
  have r: "map_get (aggregate demo_chain demo_events) 2 =
     Some \<lparr>wins = 1, totalGTWon = parseFloat_formatUnits18 10000000000000000000, matchesPlayed = 1\<rparr>"
    "map_get (aggregate demo_chain demo_events) 3 =
     Some \<lparr>wins = 0, totalGTWon = Fin 0, matchesPlayed = 0\<rparr>"
    by (simp_all add: a map_get_def fadd_zero_parse)
  from u w d r show ?thesis by (intro conjI)
qed

text \<open>
  Claim C9, amended. After any sequence of events from an empty table, \<open>totalWins\<close> is at
  most \<open>totalMatches\<close>, and the \<open>totalGTWon\<close> of \<open>GET /stats\<close> is \<open>toFixed(2)\<close> of the sum,
  over the players in insertion order, of each player's sum of the payouts won, every
  payout converted to token units as a number and every sum taken in floating point from
  the left.
\<close>

theorem stats_totals:
  "totalWins (get_stats (aggregate chain evs)) \<le> totalMatches (get_stats (aggregate chain evs)) \<and>
   totalGTWon_out (get_stats (aggregate chain evs)) =
     toFixed2 (fsum (map (\<lambda>a. fsum (won a evs)) (map fst (aggregate chain evs))))"
  using stats_of_tally [OF tally_ok_aggregate [of chain evs]] by simp


theorem stats_totals_witness:
  "totalWins (get_stats (aggregate demo_chain demo_events)) \<le>
     totalMatches (get_stats (aggregate demo_chain demo_events)) \<and>
   totalGTWon_out (get_stats (aggregate demo_chain demo_events)) =
     toFixed2 (fsum (map (\<lambda>a. fsum (won a demo_events))
       (map fst (aggregate demo_chain demo_events)))) \<and>
   totalWins (get_stats (aggregate demo_chain demo_events)) = 1 \<and>
   totalMatches (get_stats (aggregate demo_chain demo_events)) = 1 \<and>
   map fst (aggregate demo_chain demo_events) = [2, 3] \<and>
   totalGTWon_out (get_stats (aggregate demo_chain demo_events)) = Fin 10"
proof -
  have u: "updateLoserStats chain data matchId winner = data" for chain data matchId winner
    by (simp add: updateLoserStats_def contract_matches_def no_matches_function)
  have a: "aggregate demo_chain demo_events =
      [(2, \<lparr>wins = 1, totalGTWon = parseFloat_formatUnits18 10000000000000000000,
            matchesPlayed = 1\<rparr>),
       (3, \<lparr>wins = 0, totalGTWon = Fin 0, matchesPlayed = 0\<rparr>)]"
    by (simp add: aggregate_def demo_events_def on_MatchCreated_def on_Settled_def u
        map_has_def map_get_def zero_stats_def Let_def fadd_zero_parse)
  have p: "parseFloat_formatUnits18 10000000000000000000 = Fin 10"
    by code_simp
  have f: "toFixed2 (fadd (fadd (Fin 0) (Fin 10)) (Fin 0)) = Fin 10"
    by code_simp
  have t: "totalGTWon_out (get_stats (aggregate demo_chain demo_events)) = Fin 10"
    unfolding a p using f by (simp add: get_stats_def Let_def del: fadd.simps toFixed2.simps)
  show ?thesis
    using stats_totals [of demo_chain demo_events] t
    by (simp add: a get_stats_def Let_def del: fadd.simps toFixed2.simps)
qed

text \<open>
  Claim C9, as stated, fails. One settlement of 0.125 tokens is reported as 0.13 (the
  number nearest to 13/100), and one settlement of a single base unit as 0: neither is the
  sum of the payouts, in token units or in base units.
\<close>

theorem stats_total_counterexample:
  "settled_total [Settled 7 2 125000000000000000] = 125000000000000000 \<and>
   totalGTWon_out (get_stats (aggregate demo_chain [Settled 7 2 125000000000000000])) =
     Fin (1170935903116329 / 9007199254740992) \<and>
   Fin (1170935903116329 / 9007199254740992) \<noteq>
     Fin (of_int (settled_total [Settled 7 2 125000000000000000]) / 10 ^ 18) \<and>
   Fin (1170935903116329 / 9007199254740992) \<noteq>
     Fin (of_int (settled_total [Settled 7 2 125000000000000000])) \<and>
   settled_total [Settled 7 2 1] = 1 \<and>
   totalGTWon_out (get_stats (aggregate demo_chain [Settled 7 2 1])) = Fin 0"
proof -
  have u: "updateLoserStats chain data matchId winner = data" for chain data matchId winner
    by (simp add: updateLoserStats_def contract_matches_def no_matches_function)
  have a: "aggregate demo_chain [Settled 7 2 amount] =
      [(2, \<lparr>wins = 1, totalGTWon = parseFloat_formatUnits18 amount, matchesPlayed = 1\<rparr>)]"
    for amount
    by (simp add: aggregate_def on_Settled_def u map_get_def Let_def)
  have t: "totalGTWon_out (get_stats (aggregate demo_chain [Settled 7 2 amount])) =
           toFixed2 (parseFloat_formatUnits18 amount)" for amount
    by (simp add: a get_stats_def Let_def fadd_zero_parse)
  have e1: "parseFloat_formatUnits18 125000000000000000 = Fin (1 / 8)"
    by code_simp
  have e2: "toFixed2 (Fin (1 / 8)) = Fin (1170935903116329 / 9007199254740992)"
    by code_simp
  have e3: "toFixed2 (parseFloat_formatUnits18 1) = Fin 0"
    by code_simp
  have e12: "toFixed2 (parseFloat_formatUnits18 125000000000000000) =
             Fin (1170935903116329 / 9007199254740992)"
    by (simp only: e1 e2)
  show ?thesis
    by (simp add: t e12 e3 settled_total_def)
qed

end
